theory Spec2Isabelle
  imports Main "HOL-Library.Word" "HOL-Library.Signed_Division" "HOL-Library.Sublist"
    "HOL-Library.Monad_Syntax"
begin

unbundle bit_operations_syntax

section \<open>Go primitives used by the key codec\<close>

text \<open>
  Bytes are 8-bit words.  Go's \<open>int\<close> is modelled as \<open>int\<close>: every length in the key
  codec is bounded by eight times the size of a buffer held in memory, far below the
  wrap-around of a 64-bit integer.  Go's \<open>/\<close> and \<open>%\<close> truncate towards zero; they are
  \<open>sdiv\<close> and \<open>smod\<close>.  A run-time panic (index or slice bound out of range, negative
  shift count, negative size given to \<open>make\<close>) is the value \<open>None\<close>.
\<close>

type_synonym byte = "8 word"

declare Option.bind_cong [fundef_cong]

definition make_bytes :: "int \<Rightarrow> byte list option" where
  "make_bytes n = (if n < 0 then None else Some (replicate (nat n) 0))"

definition len :: "'a list \<Rightarrow> int" where
  "len xs = int (length xs)"

definition at :: "'a list \<Rightarrow> int \<Rightarrow> 'a option" where
  "at xs i = (if 0 \<le> i \<and> i < len xs then Some (xs ! nat i) else None)"

definition set_at :: "'a list \<Rightarrow> int \<Rightarrow> 'a \<Rightarrow> 'a list option" where
  "set_at xs i v = (if 0 \<le> i \<and> i < len xs then Some (xs[nat i := v]) else None)"

definition slice_from :: "'a list \<Rightarrow> int \<Rightarrow> 'a list option" where
  "slice_from xs a = (if 0 \<le> a \<and> a \<le> len xs then Some (drop (nat a) xs) else None)"

definition slice_to :: "'a list \<Rightarrow> int \<Rightarrow> 'a list option" where
  "slice_to xs b = (if 0 \<le> b \<and> b \<le> len xs then Some (take (nat b) xs) else None)"

definition copy :: "'a list \<Rightarrow> 'a list \<Rightarrow> 'a list" where
  "copy dst src = take (length dst) src @ drop (length src) dst"

definition shl :: "byte \<Rightarrow> int \<Rightarrow> byte option" where
  "shl b n = (if n < 0 then None else Some (push_bit (nat n) b))"

definition shr :: "byte \<Rightarrow> int \<Rightarrow> byte option" where
  "shr b n = (if n < 0 then None else Some (drop_bit (nat n) b))"

section \<open>Tokens and keys\<close>

record Token =
  length_T :: int
  value_T :: byte

record Key =
  length_K :: int
  value_K :: "byte list"

definition empty_Key :: Key where
  "empty_Key = \<lparr>length_K = 0, value_K = []\<rparr>"

definition toKey :: "byte list \<Rightarrow> Key" where
  "toKey keyBytes = \<lparr>length_K = len keyBytes * 8, value_K = keyBytes\<rparr>"

definition ToKey :: "byte list \<Rightarrow> Key" where
  "ToKey keyBytes = toKey keyBytes"

definition remainderBitCount :: "Key \<Rightarrow> int" where
  "remainderBitCount k = length_K k smod 8"

definition Length :: "Key \<Rightarrow> int" where
  "Length k = length_K k"

definition bytesNeeded :: "int \<Rightarrow> int" where
  "bytesNeeded bits = (let size = bits sdiv 8 in if bits smod 8 \<noteq> 0 then size + 1 else size)"

definition dualBitIndex :: "int \<Rightarrow> int" where
  "dualBitIndex shift = (8 - shift) smod 8"

definition HasPrefix :: "Key \<Rightarrow> Key \<Rightarrow> bool option" where
  "HasPrefix k pre =
     (if length_K k < length_K pre then Some False
      else let remainderBitCount = remainderBitCount pre in
        if remainderBitCount = 0 then Some (prefix (value_K pre) (value_K k))
        else do {
          remainderBitsMask \<leftarrow> shr 0xFF remainderBitCount;
          p \<leftarrow> at (value_K pre) (len (value_K pre) - 1);
          let prefixRemainderTokens = p OR remainderBitsMask;
          q \<leftarrow> at (value_K k) (len (value_K pre) - 1);
          let remainderTokens = q OR remainderBitsMask;
          if prefixRemainderTokens \<noteq> remainderTokens then Some False
          else do {
            prefixWithoutPartialByte \<leftarrow> slice_to (value_K pre) (len (value_K pre) - 1);
            Some (prefix prefixWithoutPartialByte (value_K k))
          }
        })"

definition HasStrictPrefix :: "Key \<Rightarrow> Key \<Rightarrow> bool option" where
  "HasStrictPrefix k pre = (if k \<noteq> pre then HasPrefix k pre else Some False)"

definition Token :: "Key \<Rightarrow> int \<Rightarrow> int \<Rightarrow> byte option" where
  "Token k bitIndex tokenBitSize = do {
     storageByte \<leftarrow> at (value_K k) (bitIndex sdiv 8);
     storageByte \<leftarrow> shr storageByte (dualBitIndex ((bitIndex + tokenBitSize) smod 8));
     mask \<leftarrow> shr 0xFF (dualBitIndex tokenBitSize);
     Some (storageByte AND mask)
   }"

definition appendIntoBuffer :: "Key \<Rightarrow> byte list \<Rightarrow> Token \<Rightarrow> byte list option" where
  "appendIntoBuffer k buffer token = do {
     let buffer = copy buffer (value_K k);
     t \<leftarrow> shl (value_T token) (dualBitIndex ((length_K k + length_T token) smod 8));
     b \<leftarrow> at buffer (len buffer - 1);
     set_at buffer (len buffer - 1) (b OR t)
   }"

definition Append :: "Key \<Rightarrow> Token \<Rightarrow> Key option" where
  "Append k token = do {
     buffer \<leftarrow> make_bytes (bytesNeeded (length_K k + length_T token));
     buffer \<leftarrow> appendIntoBuffer k buffer token;
     Some \<lparr>length_K = length_K k + length_T token, value_K = buffer\<rparr>
   }"

definition Greater :: "Key \<Rightarrow> Key \<Rightarrow> bool" where
  "Greater k other =
     (ord_class.lexordp (value_K other) (value_K k)
      \<or> (value_K k = value_K other \<and> length_K k > length_K other))"

definition Less :: "Key \<Rightarrow> Key \<Rightarrow> bool" where
  "Less k other =
     (ord_class.lexordp (value_K k) (value_K other)
      \<or> (value_K k = value_K other \<and> length_K k < length_K other))"

function shiftCopy_loop :: "byte list \<Rightarrow> byte list \<Rightarrow> int \<Rightarrow> int \<Rightarrow> int \<Rightarrow> (byte list \<times> int) option"
  where
  "shiftCopy_loop dst src shift dualShift i =
     (if i < len src - 1 then do {
        a \<leftarrow> at src i;
        hi \<leftarrow> shl a shift;
        b \<leftarrow> at src (i + 1);
        lo \<leftarrow> shr b dualShift;
        dst' \<leftarrow> set_at dst i (hi OR lo);
        shiftCopy_loop dst' src shift dualShift (i + 1)
      } else Some (dst, i))"
  by pat_completeness auto
termination
  by (relation "measure (\<lambda>(dst, src, shift, dualShift, i). nat (len src - 1 - i))") auto

declare shiftCopy_loop.simps [simp del]

definition shiftCopy :: "byte list \<Rightarrow> byte list \<Rightarrow> int \<Rightarrow> byte list option" where
  "shiftCopy dst src shift = do {
     let dualShift = dualBitIndex shift;
     (dst, i) \<leftarrow> shiftCopy_loop dst src shift dualShift 0;
     if i < len dst then do {
       a \<leftarrow> at src i;
       v \<leftarrow> shl a shift;
       set_at dst i v
     } else Some dst
   }"

text \<open>
  \<open>AppendExtend\<close> writes through three views of one buffer: \<open>buffer[:appendBytes]\<close>,
  \<open>extensionBuffer = buffer[appendBytes-1:]\<close> and \<open>extensionBuffer[1:]\<close>.  The model
  splits the buffer at the view's start, updates the part and joins it again.  The
  returned key shares the buffer's memory, so it sees every later write: the model builds
  it from the final buffer.
\<close>

definition AppendExtend :: "Key \<Rightarrow> Token \<Rightarrow> Key \<Rightarrow> Key option" where
  "AppendExtend k token extensionKey = do {
     let appendBytes = bytesNeeded (length_K k + length_T token);
     let totalBitLength = length_K k + length_T token + length_K extensionKey;
     buffer \<leftarrow> make_bytes (bytesNeeded totalBitLength);
     head \<leftarrow> slice_to buffer appendBytes;
     tail \<leftarrow> slice_from buffer appendBytes;
     head \<leftarrow> appendIntoBuffer k head token;
     let buffer = head @ tail;
     let bitsRemainder = (length_K k + length_T token) smod 8;
     front \<leftarrow> slice_to buffer (appendBytes - 1);
     extensionBuffer \<leftarrow> slice_from buffer (appendBytes - 1);
     if length_K extensionKey = 0
     then Some \<lparr>length_K = totalBitLength, value_K = front @ extensionBuffer\<rparr>
     else if bitsRemainder = 0 then do {
       first \<leftarrow> slice_to extensionBuffer 1;
       rest \<leftarrow> slice_from extensionBuffer 1;
       let rest = copy rest (value_K extensionKey);
       Some \<lparr>length_K = totalBitLength, value_K = front @ first @ rest\<rparr>
     } else do {
       e0 \<leftarrow> at (value_K extensionKey) 0;
       s \<leftarrow> shr e0 bitsRemainder;
       b0 \<leftarrow> at extensionBuffer 0;
       extensionBuffer \<leftarrow> set_at extensionBuffer 0 (b0 OR s);
       first \<leftarrow> slice_to extensionBuffer 1;
       rest \<leftarrow> slice_from extensionBuffer 1;
       rest \<leftarrow> shiftCopy rest (value_K extensionKey) (dualBitIndex bitsRemainder);
       Some \<lparr>length_K = totalBitLength, value_K = front @ first @ rest\<rparr>
     }
   }"

definition Skip :: "Key \<Rightarrow> int \<Rightarrow> Key option" where
  "Skip k bitsToSkip =
     (if length_K k \<le> bitsToSkip then Some empty_Key
      else do {
        v \<leftarrow> slice_from (value_K k) (bitsToSkip sdiv 8);
        let result = \<lparr>length_K = length_K k - bitsToSkip, value_K = v\<rparr>;
        if bitsToSkip smod 8 = 0 then Some result
        else do {
          buffer \<leftarrow> make_bytes (bytesNeeded (length_K result));
          let bitsRemovedFromFirstRemainingByte = bitsToSkip smod 8;
          buffer \<leftarrow> shiftCopy buffer (value_K result) bitsRemovedFromFirstRemainingByte;
          Some (result\<lparr>value_K := buffer\<rparr>)
        }
      })"

definition Take :: "Key \<Rightarrow> int \<Rightarrow> Key option" where
  "Take k bitsToTake =
     (if length_K k \<le> bitsToTake then Some k
      else let remainderBits = bitsToTake smod 8 in
        if remainderBits = 0 then do {
          v \<leftarrow> slice_to (value_K k) (bitsToTake sdiv 8);
          Some \<lparr>length_K = bitsToTake, value_K = v\<rparr>
        } else do {
          buffer \<leftarrow> make_bytes (bytesNeeded bitsToTake);
          let buffer = copy buffer (value_K k);
          mask \<leftarrow> shl 0xFF (dualBitIndex remainderBits);
          b \<leftarrow> at buffer (len buffer - 1);
          buffer \<leftarrow> set_at buffer (len buffer - 1) (b AND mask);
          Some \<lparr>length_K = bitsToTake, value_K = buffer\<rparr>
        })"

text \<open>
  The loop of \<open>iteratedHasPrefix\<close> advances by \<open>tokenBitSize\<close>, which the caller chooses;
  with a step of zero it does not end.  \<open>None\<close> is then a run that gives no value: a panic
  or a loop that never returns.
\<close>

partial_function (option) iteratedHasPrefix_loop ::
  "Key \<Rightarrow> Key \<Rightarrow> int \<Rightarrow> int \<Rightarrow> int \<Rightarrow> bool option" where
  "iteratedHasPrefix_loop k pre bitsToSkip tokenBitSize i =
     (if i < length_K pre then do {
        a \<leftarrow> Token k (bitsToSkip + i) tokenBitSize;
        b \<leftarrow> Token pre i tokenBitSize;
        if a \<noteq> b then Some False
        else iteratedHasPrefix_loop k pre bitsToSkip tokenBitSize (i + tokenBitSize)
      } else Some True)"

declare iteratedHasPrefix_loop.simps [code]

definition iteratedHasPrefix :: "Key \<Rightarrow> Key \<Rightarrow> int \<Rightarrow> int \<Rightarrow> bool option" where
  "iteratedHasPrefix k pre bitsToSkip tokenBitSize =
     (if length_K k - bitsToSkip < length_K pre then Some False
      else iteratedHasPrefix_loop k pre bitsToSkip tokenBitSize 0)"

section \<open>What a key means\<close>

text \<open>
  Bit \<open>i\<close> of a buffer is bit \<open>7 - i mod 8\<close> of byte \<open>i div 8\<close>: indices are MSB-first
  within each byte.  The bit sequence of a key is made of the first \<open>length\<close> bits of its
  buffer; the bit sequence of a token is made of its \<open>length\<close> low bits, highest first.
\<close>

definition bit_at :: "byte list \<Rightarrow> nat \<Rightarrow> bool" where
  "bit_at bs i = bit (bs ! (i div 8)) (7 - i mod 8)"

definition key_bits :: "Key \<Rightarrow> bool list" where
  "key_bits k = map (bit_at (value_K k)) [0..<nat (length_K k)]"

definition token_bits :: "Token \<Rightarrow> bool list" where
  "token_bits t = map (\<lambda>j. bit (value_T t) (nat (length_T t) - 1 - j)) [0..<nat (length_T t)]"

text \<open>The byte holding a bit sequence right-aligned, first bit highest.\<close>

definition bits_to_byte :: "bool list \<Rightarrow> byte" where
  "bits_to_byte bs = foldl (\<lambda>acc b. push_bit 1 acc OR of_bool b) 0 bs"

text \<open>
  The invariants of the data model: the length is not negative and the buffer has exactly
  as many bytes as the length needs (\<open>sized_key\<close>); every bit of the buffer from position
  \<open>length\<close> on is zero (\<open>padding_zero\<close>).
\<close>

definition sized_key :: "Key \<Rightarrow> bool" where
  "sized_key k = (0 \<le> length_K k \<and> len (value_K k) = bytesNeeded (length_K k))"

definition padding_zero :: "Key \<Rightarrow> bool" where
  "padding_zero k =
     (\<forall>i \<in> {nat (length_K k) ..< 8 * length (value_K k)}. \<not> bit_at (value_K k) i)"

definition valid_key :: "Key \<Rightarrow> bool" where
  "valid_key k = (sized_key k \<and> padding_zero k)"

text \<open>The byte that \<open>shiftCopy\<close> stores at index \<open>j\<close>.\<close>

definition shifted :: "byte list \<Rightarrow> nat \<Rightarrow> nat \<Rightarrow> nat \<Rightarrow> byte" where
  "shifted src s d j =
     push_bit s (src ! j) OR (if Suc j < length src then drop_bit d (src ! Suc j) else 0)"

section \<open>The proof iterator\<close>

text \<open>
  Modelled from the spec: the type \<open>path\<close> with \<open>Append\<close>, \<open>Compare\<close> and \<open>EmptyPath\<close>, the
  digest type \<open>ids.ID\<close> with \<open>ids.Empty\<close>, the struct \<open>ProofNode\<close> and the constant
  \<open>NodeBranchFactor\<close> are declared outside the listed sources.  A path is the list of its
  tokens, one byte each; \<open>Compare\<close> is the three-way lexicographic comparison, a shorter
  path before a longer one that extends it; a digest is a number, 0 for \<open>ids.Empty\<close>; a
  proof node holds its path and its children, token to digest; the branch factor is a
  parameter \<open>bf\<close> of the iterator.  Reading a Go map at a missing key gives the zero value.
\<close>

type_synonym path = "byte list"
type_synonym ID = nat

definition EmptyPath :: path where
  "EmptyPath = []"

definition Empty_ID :: ID where
  "Empty_ID = 0"

definition Compare :: "path \<Rightarrow> path \<Rightarrow> int" where
  "Compare a b = (if a = b then 0 else if ord_class.lexordp a b then - 1 else 1)"

definition Append_path :: "path \<Rightarrow> byte \<Rightarrow> path" where
  "Append_path p c = p @ [c]"

record ProofNode =
  KeyPath :: path
  Children :: "(byte \<times> ID) list"

record proofIterator =
  key_it :: path
  value_it :: ID
  exhausted :: bool
  nodeIndex :: int
  nextChildIndex :: "int \<rightharpoonup> int"
  proof_it :: "ProofNode list"
  nodeToPath :: "int \<rightharpoonup> path"
  nodeToBranchIndex :: "int \<rightharpoonup> byte"
  nodeToID :: "int \<rightharpoonup> ID"

definition path_at :: "(int \<rightharpoonup> path) \<Rightarrow> int \<Rightarrow> path" where
  "path_at m i = (case m i of None \<Rightarrow> EmptyPath | Some p \<Rightarrow> p)"

definition branch_at :: "(int \<rightharpoonup> byte) \<Rightarrow> int \<Rightarrow> byte" where
  "branch_at m i = (case m i of None \<Rightarrow> 0 | Some c \<Rightarrow> c)"

definition id_at :: "(int \<rightharpoonup> ID) \<Rightarrow> int \<Rightarrow> ID" where
  "id_at m i = (case m i of None \<Rightarrow> Empty_ID | Some d \<Rightarrow> d)"

definition child_id :: "ProofNode \<Rightarrow> byte \<Rightarrow> ID" where
  "child_id node c = (case map_of (Children node) c of None \<Rightarrow> Empty_ID | Some d \<Rightarrow> d)"

definition has_child :: "ProofNode \<Rightarrow> byte \<Rightarrow> bool" where
  "has_child node c = (map_of (Children node) c \<noteq> None)"

text \<open>The first loop of \<open>newProofIterator\<close>: the path of every node.\<close>

definition populatePaths :: "ProofNode list \<Rightarrow> (int \<rightharpoonup> path)" where
  "populatePaths prf = fold (\<lambda>i m. m(int i \<mapsto> KeyPath (prf ! i))) [0..<length prf] Map.empty"

text \<open>The second loop: the branch taken at every node but the last, and the digest of the
  node it leads to.  \<open>nextPath[len(myPath)]\<close> panics when the next path is not longer.\<close>

fun populateBranches ::
  "ProofNode list \<Rightarrow> (int \<rightharpoonup> path) \<Rightarrow> nat list \<Rightarrow> (int \<rightharpoonup> byte) \<times> (int \<rightharpoonup> ID)
     \<Rightarrow> ((int \<rightharpoonup> byte) \<times> (int \<rightharpoonup> ID)) option" where
  "populateBranches prf n2p [] acc = Some acc"
| "populateBranches prf n2p (i # rest) (n2b, n2id) = do {
     let myPath = path_at n2p (int i);
     let nextPath = path_at n2p (int i + 1);
     childIndex \<leftarrow> at nextPath (len myPath);
     populateBranches prf n2p rest
       (n2b(int i \<mapsto> childIndex), n2id(int i + 1 \<mapsto> child_id (prf ! i) childIndex))
   }"

text \<open>The scan of one node's children; \<open>Some\<close> is the iterator returned from inside the
  loop, \<open>None\<close> the loop running to its end.\<close>

fun scanChildren ::
  "proofIterator \<Rightarrow> int \<Rightarrow> ProofNode \<Rightarrow> path \<Rightarrow> path \<Rightarrow> byte list \<Rightarrow> proofIterator option" where
  "scanChildren iter i node nodePath start [] = None"
| "scanChildren iter i node nodePath start (childIdx # rest) =
     (if \<not> has_child node childIdx then scanChildren iter i node nodePath start rest
      else
        let childIsNode = (i \<noteq> len (proof_it iter) - 1 \<and> branch_at (nodeToBranchIndex iter) i = childIdx);
            childKey = (if childIsNode then path_at (nodeToPath iter) (i + 1)
                        else Append_path nodePath childIdx)
        in if Compare start childKey \<le> 0 then
             (if childIsNode
              then Some (iter\<lparr>nodeIndex := nodeIndex iter + 1,
                               nextChildIndex := (nextChildIndex iter)(i \<mapsto> uint childIdx + 1)\<rparr>)
              else Some (iter\<lparr>nextChildIndex := (nextChildIndex iter)(i \<mapsto> uint childIdx)\<rparr>))
           else scanChildren iter i node nodePath start rest)"

fun findFirst :: "nat \<Rightarrow> path \<Rightarrow> proofIterator \<Rightarrow> nat list \<Rightarrow> proofIterator" where
  "findFirst bf start iter [] = iter\<lparr>exhausted := True\<rparr>"
| "findFirst bf start iter (i # rest) =
     (let iter = iter\<lparr>nodeIndex := int i\<rparr>;
          node = proof_it iter ! i;
          nodePath = path_at (nodeToPath iter) (int i)
      in if Compare start nodePath \<le> 0 then iter
         else case scanChildren iter (int i) node nodePath start (map of_nat [0..<bf]) of
                Some r \<Rightarrow> r
              | None \<Rightarrow>
                  findFirst bf start
                    (iter\<lparr>nextChildIndex := (nextChildIndex iter)(int i \<mapsto> int bf)\<rparr>) rest)"

definition newProofIterator :: "nat \<Rightarrow> ProofNode list \<Rightarrow> path \<Rightarrow> proofIterator option" where
  "newProofIterator bf prf start = do {
     let n2p = populatePaths prf;
     (n2b, n2id) \<leftarrow> populateBranches prf n2p [0..<length prf - 1] (Map.empty, Map.empty);
     let iter = \<lparr>key_it = EmptyPath, value_it = Empty_ID, exhausted = False, nodeIndex = 0,
                 nextChildIndex = Map.empty, proof_it = prf, nodeToPath = n2p,
                 nodeToBranchIndex = n2b, nodeToID = n2id\<rparr>;
     Some (findFirst bf start iter [0..<length prf])
   }"

text \<open>\<open>Next\<close> returns its boolean and the iterator as it leaves it.\<close>

definition Next :: "nat \<Rightarrow> proofIterator \<Rightarrow> (bool \<times> proofIterator) option" where
  "Next bf i =
     (if exhausted i then Some (False, i\<lparr>key_it := EmptyPath, value_it := Empty_ID\<rparr>)
      else do {
        node \<leftarrow> at (proof_it i) (nodeIndex i);
        let visitedNode = (nextChildIndex i (nodeIndex i) \<noteq> None);
        let childIdx = (case nextChildIndex i (nodeIndex i) of None \<Rightarrow> 0 | Some c \<Rightarrow> c);
        let i = (if \<not> visitedNode
                 then i\<lparr>key_it := path_at (nodeToPath i) (nodeIndex i),
                        value_it := id_at (nodeToID i) (nodeIndex i)\<rparr>
                 else i\<lparr>key_it := Append_path (path_at (nodeToPath i) (nodeIndex i)) (word_of_int childIdx),
                        value_it := child_id node (word_of_int childIdx)\<rparr>);
        let childIdx = (if visitedNode then - 1 else childIdx);
        let nextChildIndex' =
              (case find (\<lambda>j. has_child node (word_of_int j)) [childIdx + 1 .. int bf] of
                 None \<Rightarrow> 0 | Some j \<Rightarrow> j);
        let i = i\<lparr>nextChildIndex := (nextChildIndex i)(nodeIndex i \<mapsto> nextChildIndex')\<rparr>;
        descend \<leftarrow>
          (if nodeIndex i \<noteq> len (proof_it i) - 1
              \<and> branch_at (nodeToBranchIndex i) (nodeIndex i) = word_of_int childIdx
           then do { n \<leftarrow> at (proof_it i) (nodeIndex i + 1); Some (0 < len (Children n)) }
           else Some False);
        let i = (if descend then i\<lparr>nodeIndex := nodeIndex i + 1\<rparr> else i);
        let i = (if \<not> descend \<and> nextChildIndex' = int bf
                 then (if nodeIndex i = 0 then i\<lparr>exhausted := True\<rparr>
                       else i\<lparr>nodeIndex := nodeIndex i - 1\<rparr>)
                 else i);
        Some (True, i)
      })"

text \<open>The keys of the first \<open>n\<close> calls of \<open>Next\<close> that return true.\<close>

fun emitted :: "nat \<Rightarrow> nat \<Rightarrow> proofIterator \<Rightarrow> path list option" where
  "emitted bf 0 i = Some []"
| "emitted bf (Suc n) i = do {
     (more, i') \<leftarrow> Next bf i;
     if more then do { ks \<leftarrow> emitted bf n i'; Some (key_it i' # ks) } else Some []
   }"

text \<open>The key prefixes a proof proves: the path of every node and the key of every child.\<close>

definition provable_prefixes :: "ProofNode list \<Rightarrow> path list" where
  "provable_prefixes prf =
     concat (map (\<lambda>n. KeyPath n # map (\<lambda>(c, d). KeyPath n @ [c]) (Children n)) prf)"

section \<open>The node codec\<close>

text \<open>
  Modelled from the spec: \<open>parseNode\<close> and \<open>node.bytes\<close> are not among the listed sources
  (only their test is).  The spec gives the layout: a value presence flag, the value
  bytes, the child count, then per child the token index, the compressed suffix and the
  child digest, read with bounds-checked field reads, failing with EncodingTruncated when
  the bytes run out.  It does not fix how integers are written nor the size of a digest:
  the integer codec \<open>enc\<close>, \<open>dec\<close> and the digest size \<open>idLen\<close> are parameters.  The value and
  the suffix are length-delimited; a suffix is a key, its bit length followed by its
  buffer.
\<close>

datatype parse_error = EncodingTruncated | EncodingMalformed

type_synonym 'a parser = "byte list \<Rightarrow> parse_error + ('a \<times> byte list)"

record Child =
  token_C :: byte
  suffix_C :: Key
  digest_C :: "byte list"

record Node =
  key_N :: Key
  value_N :: "byte list option"
  children_N :: "Child list"

definition returnP :: "'a \<Rightarrow> 'a parser" where
  "returnP x bs = Inr (x, bs)"

definition failP :: "parse_error \<Rightarrow> 'a parser" where
  "failP e bs = Inl e"

definition bindP :: "'a parser \<Rightarrow> ('a \<Rightarrow> 'b parser) \<Rightarrow> 'b parser" where
  "bindP p f bs = (case p bs of Inl e \<Rightarrow> Inl e | Inr (x, rest) \<Rightarrow> f x rest)"

definition read_bytes :: "nat \<Rightarrow> (byte list) parser" where
  "read_bytes n bs =
     (if length bs < n then Inl EncodingTruncated else Inr (take n bs, drop n bs))"

definition read_byte :: "byte parser" where
  "read_byte bs = (case bs of [] \<Rightarrow> Inl EncodingTruncated | b # rest \<Rightarrow> Inr (b, rest))"

definition parse_value :: "nat parser \<Rightarrow> (byte list option) parser" where
  "parse_value dec =
     bindP read_byte (\<lambda>flag.
       if flag = 0 then returnP None
       else if flag = 1 then bindP dec (\<lambda>n. bindP (read_bytes n) (\<lambda>v. returnP (Some v)))
       else failP EncodingMalformed)"

definition parse_child :: "nat parser \<Rightarrow> nat \<Rightarrow> Child parser" where
  "parse_child dec idLen =
     bindP read_byte (\<lambda>tok.
     bindP dec (\<lambda>bits.
     bindP (read_bytes (nat (bytesNeeded (int bits)))) (\<lambda>buf.
     bindP (read_bytes idLen) (\<lambda>d.
       returnP \<lparr>token_C = tok, suffix_C = \<lparr>length_K = int bits, value_K = buf\<rparr>,
                digest_C = d\<rparr>))))"

fun parse_children :: "nat parser \<Rightarrow> nat \<Rightarrow> nat \<Rightarrow> (Child list) parser" where
  "parse_children dec idLen 0 = returnP []"
| "parse_children dec idLen (Suc k) =
     bindP (parse_child dec idLen) (\<lambda>c.
     bindP (parse_children dec idLen k) (\<lambda>cs. returnP (c # cs)))"

definition parse_body :: "nat parser \<Rightarrow> nat \<Rightarrow> (byte list option \<times> Child list) parser" where
  "parse_body dec idLen =
     bindP (parse_value dec) (\<lambda>v.
     bindP dec (\<lambda>k.
     bindP (parse_children dec idLen k) (\<lambda>cs. returnP (v, cs))))"

definition parse :: "nat parser \<Rightarrow> nat \<Rightarrow> Key \<Rightarrow> byte list \<Rightarrow> parse_error + Node" where
  "parse dec idLen key bs =
     (case parse_body dec idLen bs of
        Inl e \<Rightarrow> Inl e
      | Inr ((v, cs), rest) \<Rightarrow> Inr \<lparr>key_N = key, value_N = v, children_N = cs\<rparr>)"

definition serialize_value :: "(nat \<Rightarrow> byte list) \<Rightarrow> byte list option \<Rightarrow> byte list" where
  "serialize_value enc v = (case v of None \<Rightarrow> [0] | Some bs \<Rightarrow> [1] @ enc (length bs) @ bs)"

definition serialize_child :: "(nat \<Rightarrow> byte list) \<Rightarrow> Child \<Rightarrow> byte list" where
  "serialize_child enc c =
     [token_C c] @ enc (nat (length_K (suffix_C c))) @ value_K (suffix_C c) @ digest_C c"

definition serialize :: "(nat \<Rightarrow> byte list) \<Rightarrow> Node \<Rightarrow> byte list" where
  "serialize enc n =
     serialize_value enc (value_N n) @ enc (length (children_N n))
       @ concat (map (serialize_child enc) (children_N n))"

text \<open>What the model asks of the integer codec, for the integers below \<open>B\<close>: what is
  written is read back, and a cut-off integer is reported as truncated.\<close>

definition uint_codec :: "(nat \<Rightarrow> byte list) \<Rightarrow> nat parser \<Rightarrow> nat \<Rightarrow> bool" where
  "uint_codec enc dec B =
     (\<forall>n < B. (\<forall>rest. dec (enc n @ rest) = Inr (n, rest))
             \<and> (\<forall>p. strict_prefix p (enc n) \<longrightarrow> dec p = Inl EncodingTruncated))"

text \<open>The nodes that have an encoding: sizes below \<open>B\<close>, suffixes that are keys of the data
  model, digests of \<open>idLen\<close> bytes.\<close>

definition encodable :: "nat \<Rightarrow> nat \<Rightarrow> Node \<Rightarrow> bool" where
  "encodable B idLen n =
     ((case value_N n of None \<Rightarrow> True | Some v \<Rightarrow> length v < B)
      \<and> length (children_N n) < B
      \<and> (\<forall>c \<in> set (children_N n).
            sized_key (suffix_C c) \<and> nat (length_K (suffix_C c)) < B
            \<and> length (digest_C c) = idLen))"

text \<open>A small instance of the integer codec: one byte per integer.\<close>

definition enc_u8 :: "nat \<Rightarrow> byte list" where
  "enc_u8 n = [of_nat n]"

definition dec_u8 :: "nat parser" where
  "dec_u8 = bindP read_byte (\<lambda>b. returnP (unat b))"

text \<open>A parser reads the encoding \<open>e\<close> as \<open>x\<close>, whatever follows, and reports every cut-off
  \<open>e\<close> as truncated.\<close>

definition framed :: "byte list \<Rightarrow> 'a parser \<Rightarrow> 'a \<Rightarrow> bool" where
  "framed e P x =
     ((\<forall>rest. P (e @ rest) = Inr (x, rest))
      \<and> (\<forall>p. strict_prefix p e \<longrightarrow> P p = Inl EncodingTruncated))"

section \<open>Arithmetic of bit positions\<close>

lemma sdiv8: "0 \<le> a \<Longrightarrow> a sdiv 8 = a div (8::int)"
  by (simp add: signed_divide_int_def sgn_if)

lemma smod8: "0 \<le> a \<Longrightarrow> a smod 8 = a mod (8::int)"
  by (simp add: signed_modulo_int_def sgn_if)

lemma bytesNeeded_nonneg:
  "0 \<le> n \<Longrightarrow> bytesNeeded n = (if n mod 8 \<noteq> 0 then n div 8 + 1 else n div 8)"
  unfolding bytesNeeded_def Let_def by (simp add: sdiv8 smod8)

lemma dualBitIndex_range: "0 \<le> s \<Longrightarrow> s \<le> 8 \<Longrightarrow> dualBitIndex s = (8 - s) mod 8"
  unfolding dualBitIndex_def by (simp add: smod8)

lemma shiftCopy_loop_spec:
  assumes "0 \<le> shift" "0 \<le> dualShift" "0 \<le> i" "len src - 1 \<le> len dst"
  shows "\<exists>dst'. shiftCopy_loop dst src shift dualShift i = Some (dst', max i (len src - 1))
           \<and> length dst' = length dst
           \<and> (\<forall>j. (j < nat i \<or> int j \<ge> len src - 1) \<longrightarrow> dst' ! j = dst ! j)
           \<and> (\<forall>j. nat i \<le> j \<and> int j < len src - 1 \<longrightarrow>
                 dst' ! j = push_bit (nat shift) (src ! j) OR drop_bit (nat dualShift) (src ! Suc j))"
  using assms
proof (induction dst src shift dualShift i rule: shiftCopy_loop.induct)
  case (1 dst src shift dualShift i)
  show ?case
  proof (cases "i < len src - 1")
    case False
    then show ?thesis
      by (subst shiftCopy_loop.simps) (auto simp: max_def)
  next
    case True
    define v where "v = push_bit (nat shift) (src ! nat i) OR drop_bit (nat dualShift) (src ! nat (i + 1))"
    define d1 where "d1 = dst[nat i := v]"
    have a: "at src i = Some (src ! nat i)" "at src (i + 1) = Some (src ! nat (i + 1))"
      using True 1(4) by (auto simp: at_def len_def)
    have s: "shl (src ! nat i) shift = Some (push_bit (nat shift) (src ! nat i))"
      "shr (src ! nat (i + 1)) dualShift = Some (drop_bit (nat dualShift) (src ! nat (i + 1)))"
      using 1(2,3) by (auto simp: shl_def shr_def)
    have u: "set_at dst i v = Some d1"
      using True 1(4,5) by (auto simp: set_at_def d1_def len_def)
    have len1: "len src - 1 \<le> len d1" using 1(5) by (simp add: d1_def len_def)
    from 1(1)[OF True a(1) s(1) a(2) s(2) u[unfolded v_def] 1(2) 1(3) _ len1] 1(4)
    obtain dst' where IH: "shiftCopy_loop d1 src shift dualShift (i + 1) = Some (dst', max (i + 1) (len src - 1))"
      "length dst' = length d1"
      "\<forall>j. (j < nat (i + 1) \<or> int j \<ge> len src - 1) \<longrightarrow> dst' ! j = d1 ! j"
      "\<forall>j. nat (i + 1) \<le> j \<and> int j < len src - 1 \<longrightarrow>
                 dst' ! j = push_bit (nat shift) (src ! j) OR drop_bit (nat dualShift) (src ! Suc j)"
      by auto
    have eq: "shiftCopy_loop dst src shift dualShift i = Some (dst', max i (len src - 1))"
      using True IH(1) by (subst shiftCopy_loop.simps) (simp add: a s u[unfolded v_def] d1_def v_def max_def)
    have l: "length dst' = length dst" using IH(2) by (simp add: d1_def)
    have p1: "\<forall>j. (j < nat i \<or> int j \<ge> len src - 1) \<longrightarrow> dst' ! j = dst ! j"
    proof (intro allI impI)
      fix j assume "j < nat i \<or> int j \<ge> len src - 1"
      then have "j \<noteq> nat i" "j < nat (i + 1) \<or> int j \<ge> len src - 1" using True 1(4) by auto
      then show "dst' ! j = dst ! j" using IH(3) by (auto simp: d1_def)
    qed
    have p2: "\<forall>j. nat i \<le> j \<and> int j < len src - 1 \<longrightarrow>
                 dst' ! j = push_bit (nat shift) (src ! j) OR drop_bit (nat dualShift) (src ! Suc j)"
    proof (intro allI impI)
      fix j assume j: "nat i \<le> j \<and> int j < len src - 1"
      show "dst' ! j = push_bit (nat shift) (src ! j) OR drop_bit (nat dualShift) (src ! Suc j)"
      proof (cases "j = nat i")
        case True
        then have "dst' ! j = d1 ! j" using IH(3) 1(4) by auto
        also have "\<dots> = v" using True j 1(4,5) by (simp add: d1_def len_def)
        finally show ?thesis using True 1(4) by (simp add: v_def nat_add_distrib)
      next
        case False
        then have "nat (i + 1) \<le> j" using j 1(4) by auto
        then show ?thesis using IH(4) j by auto
      qed
    qed
    show ?thesis using eq l p1 p2 by blast
  qed
qed

lemma shiftCopy_spec:
  assumes "0 \<le> shift" "shift \<le> 8" "length src - 1 \<le> length dst" "length dst \<le> length src"
  shows "\<exists>dst'. shiftCopy dst src shift = Some dst' \<and> length dst' = length dst
           \<and> (\<forall>j < length dst. dst' ! j = shifted src (nat shift) (nat (dualBitIndex shift)) j)"
proof -
  have d: "0 \<le> dualBitIndex shift" using assms by (simp add: dualBitIndex_range)
  have l: "len src - 1 \<le> len dst" using assms by (simp add: len_def)
  from shiftCopy_loop_spec[OF assms(1) d _ l, of 0]
  obtain d1 where L: "shiftCopy_loop dst src shift (dualBitIndex shift) 0 = Some (d1, max 0 (len src - 1))"
      "length d1 = length dst"
      "\<forall>j. int j \<ge> len src - 1 \<longrightarrow> d1 ! j = dst ! j"
      "\<forall>j. int j < len src - 1 \<longrightarrow>
          d1 ! j = push_bit (nat shift) (src ! j) OR drop_bit (nat (dualBitIndex shift)) (src ! Suc j)"
    by auto
  show ?thesis
  proof (cases "length dst = length src")
    case False
    then have "\<not> max 0 (len src - 1) < len d1" using assms L(2) by (auto simp: len_def)
    then have "shiftCopy dst src shift = Some d1"
      by (simp add: shiftCopy_def L(1) del: max_less_iff_conj)
    moreover have "\<forall>j < length dst. d1 ! j = shifted src (nat shift) (nat (dualBitIndex shift)) j"
      using L(4) False assms by (auto simp: shifted_def len_def)
    ultimately show ?thesis using L(2) by blast
  next
    case True
    show ?thesis
    proof (cases "src = []")
      case True
      then have "\<not> max 0 (len src - 1) < len d1" using assms L(2) by (simp add: len_def)
      then have "shiftCopy dst src shift = Some d1"
        by (simp add: shiftCopy_def L(1) del: max_less_iff_conj)
      then show ?thesis using L(2) True assms by auto
    next
      case False
      define m where "m = length src - 1"
      obtain n where n: "length src = Suc n" using False by (cases src) auto
      have m: "max 0 (len src - 1) = int m" "m < length src" "m < length d1"
        using True L(2) n by (simp_all add: m_def len_def)
      have "shiftCopy dst src shift = Some (d1[m := push_bit (nat shift) (src ! m)])"
        using m assms(1) by (simp add: shiftCopy_def L(1) len_def at_def shl_def set_at_def)
      moreover have "\<forall>j < length dst. (d1[m := push_bit (nat shift) (src ! m)]) ! j
           = shifted src (nat shift) (nat (dualBitIndex shift)) j"
      proof (intro allI impI)
        fix j assume j: "j < length dst"
        show "(d1[m := push_bit (nat shift) (src ! m)]) ! j
           = shifted src (nat shift) (nat (dualBitIndex shift)) j"
        proof (cases "j = m")
          case True
          have "m = n" using n by (simp add: m_def)
          then show ?thesis using m(3) True n by (simp add: shifted_def)
        next
          case False
          then have "int j < len src - 1" using j True by (auto simp: m_def len_def)
          then show ?thesis using L(4) False by (auto simp: shifted_def len_def)
        qed
      qed
      ultimately show ?thesis using L(2) by auto
    qed
  qed
qed

lemma divmod8:
  fixes q r :: nat
  assumes "r < 8"
  shows "(8 * q + r) div 8 = q" "(8 * q + r) mod 8 = r"
  using assms by simp_all

lemma divmod8_unique:
  fixes n q r :: nat
  assumes "n = 8 * q + r" "r < 8"
  shows "n div 8 = q" "n mod 8 = r"
  using assms by simp_all

lemma divmod8_add_lt:
  fixes i s :: nat
  assumes "i mod 8 + s < 8"
  shows "(i + s) div 8 = i div 8" "(i + s) mod 8 = i mod 8 + s"
proof -
  have e: "i + s = 8 * (i div 8) + (i mod 8 + s)" by simp
  show "(i + s) div 8 = i div 8" by (rule divmod8_unique[OF e assms])
  show "(i + s) mod 8 = i mod 8 + s" by (rule divmod8_unique[OF e assms])
qed

lemma divmod8_add_ge:
  fixes i s :: nat
  assumes "8 \<le> i mod 8 + s" "s < 8"
  shows "(i + s) div 8 = Suc (i div 8)" "(i + s) mod 8 = i mod 8 + s - 8"
proof -
  have "i mod 8 < 8" by simp
  then have r: "i mod 8 + s - 8 < 8" using assms by linarith
  have e: "i + s = 8 * Suc (i div 8) + (i mod 8 + s - 8)" using assms by simp
  show "(i + s) div 8 = Suc (i div 8)" by (rule divmod8_unique[OF e r])
  show "(i + s) mod 8 = i mod 8 + s - 8" by (rule divmod8_unique[OF e r])
qed

lemma bit_shifted:
  assumes "0 < s" "s < 8" "i < 8 * length src"
  shows "bit (shifted src s (8 - s) (i div 8)) (7 - i mod 8)
           = (i + s < 8 * length src \<and> bit_at src (i + s))"
proof (cases "i mod 8 + s < 8")
  case True
  have lt: "i + s < 8 * length src"
  proof -
    have "i div 8 < length src" using assms(3) by simp
    then have "8 * (i div 8) + 8 \<le> 8 * length src" by simp
    moreover have "i + s = 8 * (i div 8) + (i mod 8 + s)" by simp
    ultimately show ?thesis using True by linarith
  qed
  have hi: "\<not> bit (drop_bit (8 - s) (src ! Suc (i div 8))) (7 - i mod 8)"
    using True assms by (auto simp: bit_simps dest: bit_imp_le_length)
  show ?thesis
    using True assms lt hi
    by (auto simp: shifted_def bit_at_def divmod8_add_lt bit_simps)
next
  case False
  then have ge: "8 \<le> i mod 8 + s" by simp
  have lo: "\<not> bit (push_bit s (src ! (i div 8))) (7 - i mod 8)"
    using ge by (auto simp: bit_simps)
  have iff: "i + s < 8 * length src \<longleftrightarrow> Suc (i div 8) < length src"
  proof -
    have "i mod 8 < 8" by simp
    then have r: "i mod 8 + s - 8 < 8" using assms by linarith
    have e: "i + s = 8 * Suc (i div 8) + (i mod 8 + s - 8)" using ge by simp
    show ?thesis
    proof
      assume "i + s < 8 * length src"
      then have "8 * Suc (i div 8) < 8 * length src" using e by linarith
      then show "Suc (i div 8) < length src" by simp
    next
      assume "Suc (i div 8) < length src"
      then have "8 * Suc (i div 8) + 8 \<le> 8 * length src" by simp
      then show "i + s < 8 * length src" using e r by linarith
    qed
  qed
  have idx: "8 - s + (7 - i mod 8) = 7 - (i mod 8 + s - 8)" using ge assms by simp
  show ?thesis
    using lo iff assms
    by (auto simp: shifted_def bit_at_def divmod8_add_ge[OF ge assms(2)] bit_simps idx)
qed

lemma bytesNeeded_bounds:
  assumes "0 \<le> x"
  shows "x \<le> 8 * bytesNeeded x" "8 * bytesNeeded x < x + 8"
proof -
  define q r where "q = x div 8" and "r = x mod 8"
  have e: "x = 8 * q + r" by (simp add: q_def r_def)
  have r: "0 \<le> r" "r < 8" by (simp_all add: r_def)
  have b: "bytesNeeded x = (if r \<noteq> 0 then q + 1 else q)"
    using bytesNeeded_nonneg[OF assms] by (simp add: q_def r_def)
  have "8 * q + r \<le> 8 * (if r \<noteq> 0 then q + 1 else q)" using r by auto
  then show "x \<le> 8 * bytesNeeded x" using b e by simp
  have "8 * (if r \<noteq> 0 then q + 1 else q) < 8 * q + r + 8" using r by auto
  then show "8 * bytesNeeded x < x + 8" using b e by simp
qed

lemma bytesNeeded_unique:
  assumes "x \<le> 8 * m" "8 * m < x + 8" "0 \<le> x"
  shows "bytesNeeded x = m"
  using bytesNeeded_bounds[OF assms(3)] assms(1,2) by linarith

lemma sized_key_bounds:
  assumes "sized_key k"
  shows "0 \<le> length_K k" "nat (length_K k) \<le> 8 * length (value_K k)"
    "8 * length (value_K k) < nat (length_K k) + 8"
proof -
  show 0: "0 \<le> length_K k" using assms by (simp add: sized_key_def)
  have "len (value_K k) = bytesNeeded (length_K k)" using assms by (simp add: sized_key_def)
  with bytesNeeded_bounds[OF 0]
  have "length_K k \<le> 8 * int (length (value_K k))" "8 * int (length (value_K k)) < length_K k + 8"
    by (simp_all add: len_def)
  then show "nat (length_K k) \<le> 8 * length (value_K k)"
    "8 * length (value_K k) < nat (length_K k) + 8" using 0 by linarith+
qed

lemma sized_keyI:
  assumes "0 \<le> L" "nat L \<le> 8 * length v" "8 * length v < nat L + 8"
  shows "sized_key \<lparr>length_K = L, value_K = v\<rparr>"
proof -
  have "bytesNeeded L = int (length v)"
    by (rule bytesNeeded_unique) (use assms in linarith)+
  then show ?thesis using assms by (simp add: sized_key_def len_def)
qed

lemma make_bytes_nat: "make_bytes (int m) = Some (replicate m 0)"
  by (simp add: make_bytes_def)

lemma copy_zeros_short: "m \<le> length v \<Longrightarrow> copy (replicate m 0) v = take m v"
  by (simp add: copy_def)

lemma copy_zeros_long: "length v \<le> m \<Longrightarrow> copy (replicate m 0) v = v @ replicate (m - length v) 0"
  by (simp add: copy_def)

lemma sdiv8_nat: "int N sdiv 8 = int (N div 8)"
  by (simp add: sdiv8 zdiv_int)

lemma smod8_nat: "int N smod 8 = int (N mod 8)"
  by (simp add: smod8 zmod_int)

lemma bytesNeeded_nat:
  "bytesNeeded (int N) = int (if N mod 8 \<noteq> 0 then N div 8 + 1 else N div 8)"
  by (simp add: bytesNeeded_def sdiv8_nat smod8_nat)

lemma dualBitIndex_nat: "s \<le> 8 \<Longrightarrow> dualBitIndex (int s) = int ((8 - s) mod 8)"
  by (simp add: dualBitIndex_def smod8 zmod_int of_nat_diff)

lemma bit_255_int: "bit (255 :: int) n \<longleftrightarrow> n < 8"
proof -
  have "(255 :: int) = mask 8" by (simp add: mask_eq_exp_minus_1)
  then show ?thesis by (simp only: bit_mask_iff) simp
qed

lemma bit_255: "bit (255 :: byte) n \<longleftrightarrow> n < 8"
  by (simp add: bit_255_int)

lemma Take_spec:
  assumes k: "sized_key k" and n: "0 \<le> n" "n < length_K k"
  shows "\<exists>r. Take k n = Some r \<and> length_K r = n \<and> sized_key r \<and> padding_zero r
           \<and> (\<forall>i < nat n. bit_at (value_K r) i = bit_at (value_K k) i)"
proof -
  obtain N where N: "n = int N" using n(1) by (metis nat_0_le)
  define v where "v = value_K k"
  define L where "L = nat (length_K k)"
  have L: "length_K k = int L" "N < L" "L \<le> 8 * length v" "8 * length v < L + 8"
    using sized_key_bounds[OF k] n N by (simp_all add: L_def v_def)
  define q r where "q = N div 8" and "r = N mod 8"
  have e: "N = 8 * q + r" and r8: "r < 8" by (simp_all add: q_def r_def)
  show ?thesis
  proof (cases "r = 0")
    case True
    have q: "q \<le> length v" using e True L by linarith
    have T: "Take k n = Some \<lparr>length_K = n, value_K = take q v\<rparr>"
      using True q L(1,2)
      by (simp add: Take_def N smod8_nat sdiv8_nat slice_to_def len_def r_def[symmetric] q_def[symmetric] v_def[symmetric])
    have s: "sized_key \<lparr>length_K = n, value_K = take q v\<rparr>"
      by (rule sized_keyI) (use q e True N in simp_all)
    have p: "padding_zero \<lparr>length_K = n, value_K = take q v\<rparr>"
      using q e True N by (simp add: padding_zero_def)
    have b: "\<forall>i < nat n. bit_at (value_K \<lparr>length_K = n, value_K = take q v\<rparr>) i = bit_at (value_K k) i"
    proof (intro allI impI)
      fix i assume "i < nat n"
      then have "i div 8 < q" using e True N by simp
      then show "bit_at (value_K \<lparr>length_K = n, value_K = take q v\<rparr>) i = bit_at (value_K k) i"
        by (simp add: bit_at_def v_def)
    qed
    show ?thesis using T s p b by simp
  next
    case False
    define mask :: byte where "mask = push_bit (8 - r) 255"
    define w where "w = (take (Suc q) v)[q := v ! q AND mask]"
    have q: "Suc q \<le> length v" using e False L r8 by linarith
    have d: "dualBitIndex (int r) = int (8 - r)" using r8 False by (simp add: dualBitIndex_nat)
    have c: "\<not> length_K k \<le> n" "n smod 8 \<noteq> 0" "value_K k = v"
      using False L(1,2) by (simp_all add: N smod8_nat r_def v_def)
    have 1: "make_bytes (bytesNeeded n) = Some (replicate (Suc q) 0)"
      using False by (simp add: N bytesNeeded_nat make_bytes_nat r_def[symmetric] q_def[symmetric]
          del: of_nat_Suc of_nat_add)
    have 2: "copy (replicate (Suc q) 0) v = take (Suc q) v"
      using q by (rule copy_zeros_short)
    have 3: "shl 255 (dualBitIndex (n smod 8)) = Some mask"
      by (simp add: N smod8_nat r_def[symmetric] d shl_def mask_def)
    have 4: "at (take (Suc q) v) (len (take (Suc q) v) - 1) = Some (v ! q)"
      using q by (simp add: at_def len_def min_def)
    have 5: "set_at (take (Suc q) v) (len (take (Suc q) v) - 1) x = Some ((take (Suc q) v)[q := x])" for x
      using q by (simp add: set_at_def len_def min_def)
    have T: "Take k n = Some \<lparr>length_K = n, value_K = w\<rparr>"
      by (simp add: Take_def c 1 2 3 4 5 w_def del: replicate_Suc)
    have lw: "length w = Suc q" using q by (simp add: w_def)
    have s: "sized_key \<lparr>length_K = n, value_K = w\<rparr>"
      by (rule sized_keyI) (use lw e False N r8 in simp_all)
    have bw: "bit_at w i = (i < N \<and> bit_at v i)" if "i < 8 * Suc q" for i
    proof (cases "i div 8 = q")
      case True
      have m: "bit mask (7 - i mod 8) \<longleftrightarrow> i mod 8 < r"
        using r8 by (auto simp: mask_def bit_simps bit_255_int)
      have "i = 8 * q + i mod 8" using True by (metis mult_div_mod_eq)
      then have "i < N \<longleftrightarrow> i mod 8 < r" using e by linarith
      then show ?thesis using True q m by (auto simp: bit_at_def w_def bit_simps)
    next
      case False
      then have lt: "i div 8 < q" using that by simp
      then have "8 * (i div 8) + 8 \<le> 8 * q" by simp
      moreover have "i = 8 * (i div 8) + i mod 8" by simp
      moreover have "i mod 8 < 8" by simp
      ultimately have "i < N" using e by linarith
      then show ?thesis using False lt q by (simp add: bit_at_def w_def)
    qed
    have p: "padding_zero \<lparr>length_K = n, value_K = w\<rparr>"
      using bw by (simp add: padding_zero_def lw N)
    have b: "\<forall>i < nat n. bit_at (value_K \<lparr>length_K = n, value_K = w\<rparr>) i = bit_at (value_K k) i"
    proof (intro allI impI)
      fix i assume "i < nat n"
      then have "i < N" by (simp add: N)
      moreover from this have "i < 8 * Suc q" using e r8 by simp
      ultimately show "bit_at (value_K \<lparr>length_K = n, value_K = w\<rparr>) i = bit_at (value_K k) i"
        using bw[of i] by (simp add: v_def)
    qed
    show ?thesis using T s p b by simp
  qed
qed

lemma bit_at_drop: "c \<le> length v \<Longrightarrow> bit_at (drop c v) i = bit_at v (8 * c + i)"
  by (simp add: bit_at_def)

lemma Skip_spec:
  assumes k: "sized_key k" and n: "0 \<le> n" "n < length_K k"
  shows "\<exists>r. Skip k n = Some r \<and> length_K r = length_K k - n \<and> sized_key r
           \<and> (padding_zero k \<longrightarrow> padding_zero r)
           \<and> (\<forall>i < nat (length_K k - n). bit_at (value_K r) i = bit_at (value_K k) (nat n + i))"
proof -
  obtain N where N: "n = int N" using n(1) by (metis nat_0_le)
  define v where "v = value_K k"
  define L where "L = nat (length_K k)"
  have L: "length_K k = int L" "N < L" "L \<le> 8 * length v" "8 * length v < L + 8"
    using sized_key_bounds[OF k] n N by (simp_all add: L_def v_def)
  define c s where "c = N div 8" and "s = N mod 8"
  have e: "N = 8 * c + s" and s8: "s < 8" by (simp_all add: c_def s_def)
  have c: "c \<le> length v" using e L by linarith
  have g: "\<not> length_K k \<le> n" "value_K k = v" using L(1,2) by (simp_all add: N v_def)
  have sl: "slice_from v (n sdiv 8) = Some (drop c v)"
    using c by (simp add: N sdiv8_nat slice_from_def len_def c_def[symmetric])
  have len: "length_K k - n = int (L - N)" using L(1,2) N by simp
  have pad: "padding_zero \<lparr>length_K = int (L - N), value_K = w\<rparr>"
    if "padding_zero k"
      "\<And>i. i < 8 * length w \<Longrightarrow> L - N \<le> i \<Longrightarrow> bit_at w i
          \<Longrightarrow> N + i < 8 * length v \<and> bit_at v (N + i)" for w
    unfolding padding_zero_def
  proof
    fix i assume "i \<in> {nat (length_K \<lparr>length_K = int (L - N), value_K = w\<rparr>) ..<
       8 * length (value_K \<lparr>length_K = int (L - N), value_K = w\<rparr>)}"
    then have i: "L - N \<le> i" "i < 8 * length w" by simp_all
    have "L \<le> N + i" using i L(2) by linarith
    then have "N + i < 8 * length v \<longrightarrow> \<not> bit_at v (N + i)"
      using that(1) by (simp add: padding_zero_def L_def[symmetric] v_def[symmetric])
    then show "\<not> bit_at (value_K \<lparr>length_K = int (L - N), value_K = w\<rparr>) i"
      using that(2)[OF i(2,1)] by auto
  qed
  show ?thesis
  proof (cases "s = 0")
    case True
    have S: "Skip k n = Some \<lparr>length_K = int (L - N), value_K = drop c v\<rparr>"
      using True by (simp add: Skip_def g sl len) (simp add: N smod8_nat s_def)
    have sz: "sized_key \<lparr>length_K = int (L - N), value_K = drop c v\<rparr>"
      by (rule sized_keyI) (use L e True c in simp_all)
    have b: "bit_at (drop c v) i = bit_at v (N + i)" for i
      using c e True by (simp add: bit_at_drop)
    have "N + i < 8 * length v" if "i < 8 * length (drop c v)" for i
      using that e True c by simp
    then have p: "padding_zero k \<longrightarrow> padding_zero \<lparr>length_K = int (L - N), value_K = drop c v\<rparr>"
      using pad[of "drop c v"] b by simp
    show ?thesis using S sz p b len by (simp add: N v_def)
  next
    case False
    define src where "src = drop c v"
    define M where "M = nat (bytesNeeded (int (L - N)))"
    have Mb: "int (L - N) \<le> 8 * int M" "8 * int M < int (L - N) + 8"
      using bytesNeeded_bounds[of "int (L - N)"] by (simp_all add: M_def)
    have bn: "bytesNeeded (int (L - N)) = int M"
      using bytesNeeded_bounds[of "int (L - N)"] by (simp add: M_def)
    have ls: "length src = length v - c" by (simp add: src_def)
    have M1: "length src - 1 \<le> M" using Mb L e s8 c ls by linarith
    have M2: "M \<le> length src" using Mb L e s8 c ls False by linarith
    from shiftCopy_spec[of "int s" src "replicate M 0"] M1 M2 s8
    obtain w where w: "shiftCopy (replicate M 0) src (int s) = Some w" "length w = M"
        "\<forall>j < M. w ! j = shifted src s (nat (dualBitIndex (int s))) j"
      by auto
    have d: "nat (dualBitIndex (int s)) = 8 - s" using s8 False by (simp add: dualBitIndex_nat)
    have S: "Skip k n = Some \<lparr>length_K = int (L - N), value_K = w\<rparr>"
      using False
      by (simp add: Skip_def g sl len src_def[symmetric])
         (simp add: N smod8_nat s_def[symmetric] w(1) bn make_bytes_nat)
    have sz: "sized_key \<lparr>length_K = int (L - N), value_K = w\<rparr>"
    proof (rule sized_keyI)
      show "0 \<le> int (L - N)" by simp
      show "nat (int (L - N)) \<le> 8 * length w" using Mb(1) w(2) by simp
      show "8 * length w < nat (int (L - N)) + 8" using Mb(2) w(2) by simp
    qed
    have b: "bit_at w i = (i + s < 8 * length src \<and> bit_at v (N + i))" if "i < 8 * M" for i
    proof -
      have "i div 8 < M" using that by simp
      then have "bit_at w i = bit (shifted src s (8 - s) (i div 8)) (7 - i mod 8)"
        using w(3) d by (simp add: bit_at_def)
      also have "\<dots> = (i + s < 8 * length src \<and> bit_at src (i + s))"
        by (rule bit_shifted) (use False s8 that M2 in simp_all)
      also have "bit_at src (i + s) = bit_at v (N + i)"
      proof -
        have "8 * c + (i + s) = N + i" using e by simp
        then show ?thesis using c by (simp only: src_def bit_at_drop)
      qed
      finally show ?thesis .
    qed
    have "N + i < 8 * length v" if "i + s < 8 * length src" for i
      using that e c ls by simp
    then have p: "padding_zero k \<longrightarrow> padding_zero \<lparr>length_K = int (L - N), value_K = w\<rparr>"
      using pad[of w] b w(2) by simp
    have bb: "\<forall>i < nat (length_K k - n). bit_at w i = bit_at (value_K k) (nat n + i)"
    proof (intro allI impI)
      fix i assume "i < nat (length_K k - n)"
      then have i: "i < L - N" by (simp add: len)
      then have 1: "i < 8 * M" using Mb by linarith
      have "N + i < 8 * length v" using i L by linarith
      then have "i + s < 8 * length src" using e c ls by simp
      then show "bit_at w i = bit_at (value_K k) (nat n + i)"
        using b[OF 1] by (simp add: N v_def)
    qed
    show ?thesis using S sz p bb len by simp
  qed
qed

lemma sized_key_empty: "sized_key k \<Longrightarrow> length_K k = 0 \<Longrightarrow> k = empty_Key"
  by (simp add: sized_key_def bytesNeeded_def len_def empty_Key_def)

lemma bits_to_byte_snoc: "bits_to_byte (bs @ [b]) = push_bit 1 (bits_to_byte bs) OR of_bool b"
  by (simp add: bits_to_byte_def)

lemma bit_bits_to_byte:
  "length bs \<le> 8 \<Longrightarrow> bit (bits_to_byte bs) j \<longleftrightarrow> j < length bs \<and> bs ! (length bs - 1 - j)"
proof (induction bs arbitrary: j rule: rev_induct)
  case Nil
  then show ?case by (simp add: bits_to_byte_def)
next
  case (snoc b bs)
  then have IH: "\<And>j. bit (bits_to_byte bs) j \<longleftrightarrow> j < length bs \<and> bs ! (length bs - 1 - j)"
    and l: "length bs < 8" by simp_all
  show ?case
  proof (cases j)
    case 0
    have "bit (bits_to_byte (bs @ [b])) 0 \<longleftrightarrow> b"
      unfolding bits_to_byte_snoc by (simp only: bit_or_iff bit_push_bit_iff bit_of_bool_iff) simp
    then show ?thesis using 0 by simp
  next
    case (Suc j')
    have "bit (bits_to_byte (bs @ [b])) (Suc j') \<longleftrightarrow> Suc j' < 8 \<and> bit (bits_to_byte bs) j'"
      unfolding bits_to_byte_snoc by (simp only: bit_or_iff bit_push_bit_iff bit_of_bool_iff) simp
    also have "\<dots> \<longleftrightarrow> j' < length bs \<and> bs ! (length bs - 1 - j')"
      using l IH[of j'] by auto
    also have "\<dots> \<longleftrightarrow> Suc j' < length (bs @ [b]) \<and> (bs @ [b]) ! (length (bs @ [b]) - 1 - Suc j')"
      by (auto simp: nth_append)
    finally show ?thesis using Suc by simp
  qed
qed

lemma Token_spec:
  assumes v: "value_K k = v" and o: "0 \<le> off" and n: "1 \<le> n" "off mod 8 + n \<le> 8"
    and q: "off div 8 < len v"
  shows "\<exists>w. Token k off n = Some w
           \<and> (\<forall>j. bit w j \<longleftrightarrow> (j < nat n \<and> bit_at v (nat off + nat n - 1 - j)))"
proof -
  obtain O' where O: "off = int O'" using o by (metis nat_0_le)
  obtain T where T: "n = int T" using n(1) by (metis nat_0_le zero_le_one order_trans)
  define q r where "q = O' div 8" and "r = O' mod 8"
  have e: "O' = 8 * q + r" and r8: "r < 8" by (simp_all add: q_def r_def)
  have "int (O' mod 8) + int T \<le> 8" using n(2) by (simp add: O T zmod_int)
  then have T1: "1 \<le> T" "r + T \<le> 8" using n(1) T by (simp_all add: r_def)
  have "int O' div 8 = int q" by (simp add: q_def zdiv_int)
  then have ql: "q < length v" using q by (simp add: O len_def)
  have 1: "at (value_K k) (off sdiv 8) = Some (v ! q)"
    using ql by (simp add: v O sdiv8_nat at_def len_def q_def)
  have "(O' + T) mod 8 = (r + T) mod 8" by (simp add: r_def mod_simps)
  then have m: "(off + n) smod 8 = int ((r + T) mod 8)"
    by (simp add: O T smod8_nat flip: of_nat_add)
  have "(8 - (r + T) mod 8) mod 8 = 8 - (r + T)"
    using T1 by (cases "r + T = 8") simp_all
  then have 2: "dualBitIndex ((off + n) smod 8) = int (8 - (r + T))"
    by (simp add: m dualBitIndex_nat)
  have 3: "dualBitIndex n = int (8 - T)" using T1 r8 by (simp add: T dualBitIndex_nat)
  define w where "w = drop_bit (8 - (r + T)) (v ! q) AND drop_bit (8 - T) (255 :: byte)"
  have W: "Token k off n = Some w"
    by (simp add: Token_def 1 2 3 shr_def w_def)
  have bw: "bit w j \<longleftrightarrow> bit (v ! q) (8 - (r + T) + j) \<and> 8 - T + j < 8" for j
    unfolding w_def by (simp only: bit_and_iff bit_drop_bit_eq o_apply bit_255)
  have "bit w j \<longleftrightarrow> (j < nat n \<and> bit_at v (nat off + nat n - 1 - j))" for j
  proof (cases "j < T")
    case True
    have "O' + T - 1 - j = 8 * q + (r + T - 1 - j)" using True e by simp
    moreover have "r + T - 1 - j < 8" using T1 by simp
    ultimately have dm: "(O' + T - 1 - j) div 8 = q" "(O' + T - 1 - j) mod 8 = r + T - 1 - j"
      by (rule divmod8_unique)+
    have i: "7 - (r + T - 1 - j) = 8 - (r + T) + j" using True T1 by simp
    have "bit_at v (O' + T - 1 - j) = bit (v ! q) (8 - (r + T) + j)"
      unfolding bit_at_def by (simp only: dm i)
    moreover have "8 - T + j < 8" using True T1 by simp
    moreover have "nat off + nat n - 1 - j = O' + T - 1 - j" "nat n = T" by (simp_all add: O T)
    ultimately show ?thesis using True bw[of j] by simp
  next
    case False
    then have "\<not> 8 - T + j < 8" using T1 by simp
    moreover have "nat n = T" by (simp add: T)
    ultimately show ?thesis using False bw[of j] by simp
  qed
  then show ?thesis using W by blast
qed

lemma Token_bits:
  assumes k: "sized_key k" and o: "0 \<le> off" and n: "1 \<le> n" "off mod 8 + n \<le> 8"
    and l: "off + n \<le> length_K k"
  shows "Token k off n = Some (bits_to_byte (take (nat n) (drop (nat off) (key_bits k))))"
proof -
  define bs where "bs = take (nat n) (drop (nat off) (key_bits k))"
  have lb: "length bs = nat n" using l o n by (simp add: bs_def key_bits_def)
  have nb: "bs ! i = bit_at (value_K k) (nat off + i)" if "i < nat n" for i
    using that l o n by (simp add: bs_def key_bits_def)
  have "off < 8 * len (value_K k)"
    using sized_key_bounds[OF k] l n by (simp add: len_def)
  then have q: "off div 8 < len (value_K k)" by simp
  from Token_spec[OF refl o n q] obtain w where w: "Token k off n = Some w"
    "\<And>j. bit w j \<longleftrightarrow> (j < nat n \<and> bit_at (value_K k) (nat off + nat n - 1 - j))" by blast
  have "0 \<le> off mod 8" by simp
  then have n8: "nat n \<le> 8" using n(2) by linarith
  have "bit (bits_to_byte bs) j \<longleftrightarrow> (j < nat n \<and> bit_at (value_K k) (nat off + nat n - 1 - j))" for j
  proof (cases "j < nat n")
    case True
    then have "nat off + (nat n - 1 - j) = nat off + nat n - 1 - j" by simp
    then show ?thesis using nb[of "nat n - 1 - j"] True n8 by (simp add: bit_bits_to_byte lb)
  next
    case False
    then show ?thesis using n8 by (simp add: bit_bits_to_byte lb)
  qed
  then have "w = bits_to_byte bs" using w(2) by (simp add: bit_eq_iff)
  then show ?thesis using w(1) by (simp add: bs_def)
qed

lemma prefix_nth:
  "prefix xs ys \<longleftrightarrow> length xs \<le> length ys \<and> (\<forall>i < length xs. xs ! i = ys ! i)"
proof
  assume "prefix xs ys"
  then obtain zs where "ys = xs @ zs" by (auto simp: prefix_def)
  then show "length xs \<le> length ys \<and> (\<forall>i < length xs. xs ! i = ys ! i)"
    by (simp add: nth_append)
next
  assume a: "length xs \<le> length ys \<and> (\<forall>i < length xs. xs ! i = ys ! i)"
  then have "take (length xs) ys = xs" by (intro nth_equalityI) simp_all
  then show "prefix xs ys" by (metis take_is_prefix)
qed

lemma key_bits_prefix:
  assumes "0 \<le> length_K p" "0 \<le> length_K k"
  shows "prefix (key_bits p) (key_bits k) \<longleftrightarrow>
           length_K p \<le> length_K k
           \<and> (\<forall>i < nat (length_K p). bit_at (value_K p) i = bit_at (value_K k) i)"
  using assms by (auto simp: prefix_nth key_bits_def)

lemma bytes_eq_bits:
  assumes "m \<le> length a" "m \<le> length b"
  shows "(\<forall>j < m. a ! j = (b ! j :: byte)) \<longleftrightarrow> (\<forall>i < 8 * m. bit_at a i = bit_at b i)"
proof
  assume "\<forall>j < m. a ! j = b ! j"
  then show "\<forall>i < 8 * m. bit_at a i = bit_at b i" by (simp add: bit_at_def)
next
  assume h: "\<forall>i < 8 * m. bit_at a i = bit_at b i"
  show "\<forall>j < m. a ! j = b ! j"
  proof (intro allI impI bit_word_eqI)
    fix j n assume j: "j < m" and n: "n < LENGTH(8)"
    then have n8: "n < 8" by simp
    have "8 * j + (7 - n) < 8 * m" using j by simp
    then have "bit_at a (8 * j + (7 - n)) = bit_at b (8 * j + (7 - n))" using h by blast
    moreover have "(8 * j + (7 - n)) div 8 = j" "(8 * j + (7 - n)) mod 8 = 7 - n"
      by (rule divmod8; simp)+
    moreover have "7 - (7 - n) = n" using n8 by simp
    ultimately show "bit (a ! j) n = bit (b ! j) n" by (simp only: bit_at_def)
  qed
qed

lemma masked_eq_bits:
  assumes "0 < r" "r < 8"
  shows "(a OR drop_bit r (255 :: byte)) = (b OR drop_bit r 255)
           \<longleftrightarrow> (\<forall>o' < r. bit a (7 - o') = bit b (7 - o'))"
proof -
  have m: "bit (x OR drop_bit r (255 :: byte)) n \<longleftrightarrow> bit x n \<or> r + n < 8" for x n
    by (simp only: bit_or_iff bit_drop_bit_eq o_apply bit_255)
  show ?thesis
  proof
    assume eq: "a OR drop_bit r 255 = b OR drop_bit r 255"
    show "\<forall>o' < r. bit a (7 - o') = bit b (7 - o')"
    proof (intro allI impI)
      fix o' assume "o' < r"
      then have "\<not> r + (7 - o') < 8" using assms by simp
      then show "bit a (7 - o') = bit b (7 - o')"
        using m[of a "7 - o'"] m[of b "7 - o'"] eq by simp
    qed
  next
    assume h: "\<forall>o' < r. bit a (7 - o') = bit b (7 - o')"
    show "a OR drop_bit r 255 = b OR drop_bit r 255"
    proof (rule bit_word_eqI)
      fix n assume "n < LENGTH(8)"
      then have n8: "n < 8" by simp
      show "bit (a OR drop_bit r 255) n = bit (b OR drop_bit r 255) n"
      proof (cases "r + n < 8")
        case True
        then show ?thesis by (simp only: m) simp
      next
        case False
        then have "7 - n < r" "7 - (7 - n) = n" using n8 by simp_all
        then have "bit a n = bit b n" using h by metis
        then show ?thesis by (simp only: m)
      qed
    qed
  qed
qed

lemma HasPrefix_spec:
  assumes k: "sized_key k" and p: "sized_key p"
  shows "HasPrefix k p = Some (prefix (key_bits p) (key_bits k))"
proof -
  define vk vp where "vk = value_K k" and "vp = value_K p"
  define Lk Lp where "Lk = nat (length_K k)" and "Lp = nat (length_K p)"
  have K: "length_K k = int Lk" "Lk \<le> 8 * length vk" "8 * length vk < Lk + 8"
    using sized_key_bounds[OF k] by (simp_all add: Lk_def vk_def)
  have P: "length_K p = int Lp" "Lp \<le> 8 * length vp" "8 * length vp < Lp + 8"
    using sized_key_bounds[OF p] by (simp_all add: Lp_def vp_def)
  have sem: "prefix (key_bits p) (key_bits k) \<longleftrightarrow>
      Lp \<le> Lk \<and> (\<forall>i < Lp. bit_at vp i = bit_at vk i)"
    using key_bits_prefix[of p k] K(1) P(1) by (simp add: vk_def vp_def)
  show ?thesis
  proof (cases "Lk < Lp")
    case True
    then show ?thesis using sem by (simp add: HasPrefix_def K(1) P(1))
  next
    case False
    then have le: "Lp \<le> Lk" by simp
    define q r where "q = Lp div 8" and "r = Lp mod 8"
    have e: "Lp = 8 * q + r" and r8: "r < 8" by (simp_all add: q_def r_def)
    have g: "\<not> length_K k < length_K p" "remainderBitCount p = int r"
      "value_K p = vp" "value_K k = vk"
      using le by (simp_all add: K(1) P(1) remainderBitCount_def smod8_nat r_def vk_def vp_def)
    show ?thesis
    proof (cases "r = 0")
      case True
      have l: "length vp = q" using P e True by linarith
      have lk: "q \<le> length vk" using K le e True by linarith
      have "prefix vp vk \<longleftrightarrow> (\<forall>j < q. vp ! j = vk ! j)"
        using l lk by (simp add: prefix_nth)
      also have "\<dots> \<longleftrightarrow> (\<forall>i < 8 * q. bit_at vp i = bit_at vk i)"
        by (rule bytes_eq_bits) (use l lk in simp_all)
      finally have "prefix vp vk \<longleftrightarrow> prefix (key_bits p) (key_bits k)"
        using sem le e True by simp
      then show ?thesis using True by (simp add: HasPrefix_def g)
    next
      case False
      have l: "length vp = Suc q" using P e False r8 by linarith
      have lk: "Suc q \<le> length vk" using K le e False by linarith
      have 1: "shr 255 (int r) = Some (drop_bit r 255)" by (simp add: shr_def)
      have 2: "at vp (len vp - 1) = Some (vp ! q)" "at vk (len vp - 1) = Some (vk ! q)"
        "slice_to vp (len vp - 1) = Some (take q vp)"
        using l lk by (simp_all add: at_def len_def slice_to_def)
      have H: "HasPrefix k p = Some ((vp ! q OR drop_bit r 255) = (vk ! q OR drop_bit r 255)
                  \<and> prefix (take q vp) vk)"
        using False by (simp add: HasPrefix_def g 1 2)
      have "prefix (take q vp) vk \<longleftrightarrow> (\<forall>j < q. vp ! j = vk ! j)"
        using l lk by (simp add: prefix_nth)
      also have "\<dots> \<longleftrightarrow> (\<forall>i < 8 * q. bit_at vp i = bit_at vk i)"
        by (rule bytes_eq_bits) (use l lk in simp_all)
      finally have A: "prefix (take q vp) vk \<longleftrightarrow> (\<forall>i < 8 * q. bit_at vp i = bit_at vk i)" .
      have B: "(vp ! q OR drop_bit r 255) = (vk ! q OR drop_bit r 255)
          \<longleftrightarrow> (\<forall>o' < r. bit_at vp (8 * q + o') = bit_at vk (8 * q + o'))"
      proof -
        have "bit_at x (8 * q + o') = bit (x ! q) (7 - o')" if "o' < r" for x o'
          using that r8 by (simp add: bit_at_def)
        then show ?thesis using masked_eq_bits[of r "vp ! q" "vk ! q"] False r8 by simp
      qed
      have "(\<forall>i < Lp. bit_at vp i = bit_at vk i) \<longleftrightarrow>
          (\<forall>i < 8 * q. bit_at vp i = bit_at vk i)
          \<and> (\<forall>o' < r. bit_at vp (8 * q + o') = bit_at vk (8 * q + o'))"
      proof
        assume h: "\<forall>i < Lp. bit_at vp i = bit_at vk i"
        show "(\<forall>i < 8 * q. bit_at vp i = bit_at vk i)
          \<and> (\<forall>o' < r. bit_at vp (8 * q + o') = bit_at vk (8 * q + o'))"
          using h e by simp
      next
        assume h: "(\<forall>i < 8 * q. bit_at vp i = bit_at vk i)
          \<and> (\<forall>o' < r. bit_at vp (8 * q + o') = bit_at vk (8 * q + o'))"
        show "\<forall>i < Lp. bit_at vp i = bit_at vk i"
        proof (intro allI impI)
          fix i assume i: "i < Lp"
          show "bit_at vp i = bit_at vk i"
          proof (cases "i < 8 * q")
            case True then show ?thesis using h by blast
          next
            case False
            then have "i = 8 * q + (i - 8 * q)" "i - 8 * q < r" using i e by simp_all
            then show ?thesis using h by metis
          qed
        qed
      qed
      then show ?thesis using H A B sem le by auto
    qed
  qed
qed

lemma bit_at_append_zeros:
  assumes "i < 8 * (length v + m)"
  shows "bit_at (v @ replicate m (0 :: byte)) i \<longleftrightarrow> i < 8 * length v \<and> bit_at v i"
proof (cases "i div 8 < length v")
  case True
  then have "i < 8 * length v" by simp
  then show ?thesis using True by (simp add: bit_at_def nth_append)
next
  case False
  then have ge: "\<not> i < 8 * length v" by simp
  have "i div 8 - length v < m" using assms False by simp
  then show ?thesis using False ge by (simp add: bit_at_def nth_append)
qed

lemma unat_less_no_bit:
  assumes "unat (w :: byte) < 2 ^ T" "T \<le> m"
  shows "\<not> bit w m"
proof -
  have "unat w < 2 ^ m"
    using assms by (meson le_less_trans less_le_trans not_le one_le_numeral power_increasing)
  then have "unat w div 2 ^ m = 0" by simp
  then have "\<not> bit (unat w) m" by (simp add: bit_iff_odd)
  then show ?thesis by (simp add: bit_unsigned_iff)
qed

lemma appendIntoBuffer_spec:
  assumes k: "sized_key k" and t: "1 \<le> length_T t"
    and M: "int M = bytesNeeded (length_K k + length_T t)"
  shows "\<exists>w. appendIntoBuffer k (replicate M 0) t = Some w \<and> length w = M
           \<and> length (value_K k) \<le> M
           \<and> (\<forall>i < 8 * M. bit_at w i \<longleftrightarrow>
                 (i < 8 * length (value_K k) \<and> bit_at (value_K k) i)
               \<or> (i div 8 = M - 1
                  \<and> bit (push_bit (nat (dualBitIndex ((length_K k + length_T t) smod 8))) (value_T t))
                        (7 - i mod 8)))"
proof -
  define v where "v = value_K k"
  define L where "L = nat (length_K k)"
  define d where "d = nat (dualBitIndex ((length_K k + length_T t) smod 8))"
  define pb where "pb = push_bit d (value_T t)"
  have L: "length_K k = int L" "L \<le> 8 * length v" "8 * length v < L + 8"
    using sized_key_bounds[OF k] by (simp_all add: L_def v_def)
  have N0: "0 \<le> length_K k + length_T t" using L(1) t by simp
  have Mb: "length_K k + length_T t \<le> 8 * int M" "8 * int M < length_K k + length_T t + 8"
    using bytesNeeded_bounds[OF N0] M by simp_all
  have lv: "length v \<le> M" using Mb L t by linarith
  have M1: "1 \<le> M" using Mb L t by linarith
  define b0 where "b0 = v @ replicate (M - length v) 0"
  have lb: "length b0 = M" using lv by (simp add: b0_def)
  have 1: "copy (replicate M 0) (value_K k) = b0"
    using lv by (simp add: copy_zeros_long v_def b0_def)
  have "0 \<le> (length_K k + length_T t) smod 8" using N0 by (simp add: smod8)
  moreover have "(length_K k + length_T t) smod 8 \<le> 8" using N0 by (simp add: smod8)
  ultimately have "0 \<le> dualBitIndex ((length_K k + length_T t) smod 8)"
    by (simp add: dualBitIndex_range)
  then have 2: "shl (value_T t) (dualBitIndex ((length_K k + length_T t) smod 8)) = Some pb"
    by (simp add: shl_def pb_def d_def)
  have 3: "at b0 (len b0 - 1) = Some (b0 ! (M - 1))"
    "set_at b0 (len b0 - 1) x = Some (b0[M - 1 := x])" for x
    using M1 lb by (simp_all add: at_def set_at_def len_def nat_diff_distrib)
  define w where "w = b0[M - 1 := b0 ! (M - 1) OR pb]"
  have W: "appendIntoBuffer k (replicate M 0) t = Some w"
    by (simp add: appendIntoBuffer_def 1 2 3 w_def)
  have "bit_at w i \<longleftrightarrow> (i < 8 * length v \<and> bit_at v i) \<or> (i div 8 = M - 1 \<and> bit pb (7 - i mod 8))"
    if i: "i < 8 * M" for i
  proof -
    have z: "bit_at b0 i \<longleftrightarrow> i < 8 * length v \<and> bit_at v i"
      unfolding b0_def by (rule bit_at_append_zeros) (use i lv in simp)
    have q: "i div 8 < M" using i by simp
    show ?thesis
    proof (cases "i div 8 = M - 1")
      case True
      then have "bit_at w i \<longleftrightarrow> bit_at b0 i \<or> bit pb (7 - i mod 8)"
        using q lb by (simp add: w_def bit_at_def bit_or_iff)
      then show ?thesis using z True by simp
    next
      case False
      then have "bit_at w i \<longleftrightarrow> bit_at b0 i" by (simp add: w_def bit_at_def)
      then show ?thesis using z False by simp
    qed
  qed
  moreover have "length w = M" using lb by (simp add: w_def)
  ultimately show ?thesis using W lv by (simp add: pb_def d_def v_def)
qed

lemma appendIntoBuffer_bits:
  assumes k: "sized_key k" and t: "1 \<le> length_T t"
    and M: "int M = bytesNeeded (length_K k + length_T t)"
  shows "\<exists>w. appendIntoBuffer k (replicate M 0) t = Some w \<and> length w = M
           \<and> length (value_K k) \<le> M \<and> 1 \<le> M
           \<and> (padding_zero k \<longrightarrow>
                (\<forall>i. nat (length_K k + length_T t) \<le> i \<and> i < 8 * M \<longrightarrow> \<not> bit_at w i))
           \<and> (unat (value_T t) < 2 ^ nat (length_T t) \<longrightarrow>
                (\<forall>i < nat (length_K k). bit_at w i = bit_at (value_K k) i))
           \<and> (padding_zero k \<and> length_K k mod 8 + length_T t \<le> 8 \<longrightarrow>
                (\<forall>j < nat (length_T t).
                   bit_at w (nat (length_K k) + j) = bit (value_T t) (nat (length_T t) - 1 - j)))"
proof -
  define v where "v = value_K k"
  define tv where "tv = value_T t"
  define L where "L = nat (length_K k)"
  define T where "T = nat (length_T t)"
  have L: "length_K k = int L" "L \<le> 8 * length v" "8 * length v < L + 8"
    using sized_key_bounds[OF k] by (simp_all add: L_def v_def)
  have T: "length_T t = int T" "1 \<le> T" using t by (simp_all add: T_def)
  have N: "length_K k + length_T t = int (L + T)" by (simp add: L T)
  have Mb: "L + T \<le> 8 * M" "8 * M < L + T + 8"
    using bytesNeeded_bounds[of "int (L + T)"] M N by simp_all
  have M1: "1 \<le> M" using Mb T by linarith
  define rr where "rr = L + T - 8 * (M - 1)"
  have rr: "L + T = 8 * (M - 1) + rr" "1 \<le> rr" "rr \<le> 8"
    using Mb M1 by (simp_all add: rr_def)
  have "(L + T) mod 8 = rr mod 8" by (subst rr(1)) simp
  then have "(8 - (L + T) mod 8) mod 8 = 8 - rr"
    using rr(2,3) by (cases "rr = 8") simp_all
  then have d: "nat (dualBitIndex ((length_K k + length_T t) smod 8)) = 8 - rr"
    by (simp add: N smod8_nat dualBitIndex_nat del: of_nat_add)
  from appendIntoBuffer_spec[OF k t M] obtain w where
    w: "appendIntoBuffer k (replicate M 0) t = Some w" "length w = M" "length v \<le> M"
    and b: "\<And>i. i < 8 * M \<Longrightarrow> bit_at w i \<longleftrightarrow>
                 (i < 8 * length v \<and> bit_at v i)
               \<or> (i div 8 = M - 1 \<and> bit (push_bit (8 - rr) tv) (7 - i mod 8))"
    unfolding d v_def tv_def by blast
  have pb: "bit (push_bit (8 - rr) tv) (7 - o') \<longleftrightarrow> o' < rr \<and> bit tv (rr - 1 - o')"
    if "o' < 8" for o'
  proof (cases "o' < rr")
    case True
    then have "7 - o' - (8 - rr) = rr - 1 - o'" "8 - rr \<le> 7 - o'" using rr that by simp_all
    moreover have "7 - o' < 8" by arith
    ultimately show ?thesis using True by (simp only: bit_push_bit_iff) simp
  next
    case False
    then have "\<not> 8 - rr \<le> 7 - o'" using rr that by simp
    then show ?thesis using False by (simp add: bit_push_bit_iff)
  qed
  have last: "i mod 8 = i - 8 * (M - 1)" "i = 8 * (M - 1) + i mod 8" if "i div 8 = M - 1" for i
    using that by (metis add_diff_cancel_left' mult_div_mod_eq)+
  have P2: "\<not> bit_at w i" if p: "padding_zero k" and i: "L + T \<le> i" "i < 8 * M" for i
  proof -
    have "\<not> (i < 8 * length v \<and> bit_at v i)"
      using p i(1) by (auto simp: padding_zero_def L_def[symmetric] v_def[symmetric])
    moreover have "\<not> i mod 8 < rr" if "i div 8 = M - 1"
      using last(2)[OF that] i(1) rr(1) by linarith
    ultimately show ?thesis using b[OF i(2)] pb[of "i mod 8"] by auto
  qed
  have P3: "bit_at w i = bit_at v i" if s: "unat tv < 2 ^ T" and i: "i < L" for i
  proof -
    have i8: "i < 8 * length v" "i < 8 * M" using i L(2) Mb by linarith+
    have "\<not> bit tv (rr - 1 - i mod 8)" if "i div 8 = M - 1" "i mod 8 < rr"
    proof -
      have "T \<le> rr - 1 - i mod 8" using last(2)[OF that(1)] i rr(1) by linarith
      then show ?thesis using s by (rule unat_less_no_bit[rotated])
    qed
    then show ?thesis using b[OF i8(2)] pb[of "i mod 8"] i8(1) by auto
  qed
  have P4: "bit_at w (L + j) = bit tv (T - 1 - j)"
    if p: "padding_zero k" and a: "length_K k mod 8 + length_T t \<le> 8" and j: "j < T" for j
  proof -
    define q r0 where "q = L div 8" and "r0 = L mod 8"
    have e: "L = 8 * q + r0" by (simp add: q_def r0_def)
    have "int (L mod 8) + int T \<le> 8" using a by (simp add: L(1) T(1) zmod_int)
    then have r0: "r0 + T \<le> 8" by (simp add: r0_def)
    have "M = Suc q" using Mb e r0 T(2) by linarith
    then have q: "q = M - 1" and rq: "rr = r0 + T" using rr(1) e by simp_all
    have "L + j = 8 * q + (r0 + j)" "r0 + j < 8" using e r0 j by simp_all
    then have dm: "(L + j) div 8 = q" "(L + j) mod 8 = r0 + j" by (rule divmod8_unique)+
    have i8: "L + j < 8 * M" using Mb j by linarith
    have "\<not> (L + j < 8 * length v \<and> bit_at v (L + j))"
      using p by (auto simp: padding_zero_def L_def[symmetric] v_def[symmetric])
    moreover have "r0 + j < rr" "rr - 1 - (r0 + j) = T - 1 - j" using rq j by simp_all
    ultimately show ?thesis using b[OF i8] pb[of "r0 + j"] dm q \<open>r0 + j < 8\<close> by auto
  qed
  have n: "nat (length_K k + length_T t) = L + T" by (simp add: N del: of_nat_add)
  show ?thesis
    unfolding n v_def[symmetric] tv_def[symmetric] L_def[symmetric] T_def[symmetric]
    using w M1 P2 P3 P4 by blast
qed

lemma Append_spec:
  assumes k: "sized_key k" and t: "1 \<le> length_T t"
  shows "\<exists>r. Append k t = Some r \<and> length_K r = length_K k + length_T t \<and> sized_key r
           \<and> (padding_zero k \<longrightarrow> padding_zero r)
           \<and> (unat (value_T t) < 2 ^ nat (length_T t) \<longrightarrow>
                (\<forall>i < nat (length_K k). bit_at (value_K r) i = bit_at (value_K k) i))
           \<and> (padding_zero k \<and> length_K k mod 8 + length_T t \<le> 8 \<longrightarrow>
                (\<forall>j < nat (length_T t).
                   bit_at (value_K r) (nat (length_K k) + j)
                     = bit (value_T t) (nat (length_T t) - 1 - j)))"
proof -
  have N0: "0 \<le> length_K k + length_T t" using sized_key_bounds(1)[OF k] t by simp
  define M where "M = nat (bytesNeeded (length_K k + length_T t))"
  have "0 \<le> bytesNeeded (length_K k + length_T t)"
    using bytesNeeded_bounds[OF N0] N0 by linarith
  then have M: "int M = bytesNeeded (length_K k + length_T t)" by (simp add: M_def)
  from appendIntoBuffer_bits[OF k t M] obtain w where
    w: "appendIntoBuffer k (replicate M 0) t = Some w" "length w = M"
    and P2: "padding_zero k \<longrightarrow>
                (\<forall>i. nat (length_K k + length_T t) \<le> i \<and> i < 8 * M \<longrightarrow> \<not> bit_at w i)"
    and P3: "unat (value_T t) < 2 ^ nat (length_T t) \<longrightarrow>
                (\<forall>i < nat (length_K k). bit_at w i = bit_at (value_K k) i)"
    and P4: "padding_zero k \<and> length_K k mod 8 + length_T t \<le> 8 \<longrightarrow>
                (\<forall>j < nat (length_T t).
                   bit_at w (nat (length_K k) + j) = bit (value_T t) (nat (length_T t) - 1 - j))"
    by blast
  define r where "r = \<lparr>length_K = length_K k + length_T t, value_K = w\<rparr>"
  have A: "Append k t = Some r"
    by (simp add: Append_def M[symmetric] make_bytes_nat w(1) r_def)
  have "len w = bytesNeeded (length_K k + length_T t)" using M w(2) by (simp add: len_def)
  then have s: "sized_key r" using N0 by (simp add: sized_key_def r_def)
  have p: "padding_zero k \<longrightarrow> padding_zero r"
    using P2 w(2) by (simp add: padding_zero_def r_def)
  show ?thesis using A s p P3 P4 by (simp add: r_def)
qed

lemma bit_at_append:
  "bit_at (a @ b) i = (if i < 8 * length a then bit_at a i else bit_at b (i - 8 * length a))"
proof (cases "i < 8 * length a")
  case True
  then have "i div 8 < length a" by simp
  then show ?thesis using True by (simp add: bit_at_def nth_append)
next
  case False
  then obtain x where x: "i = 8 * length a + x" using le_Suc_ex[of "8 * length a" i] by auto
  show ?thesis unfolding x by (simp add: bit_at_def nth_append)
qed

lemma bit_at_Cons:
  "bit_at (x # r) i = (if i < 8 then bit x (7 - i) else bit_at r (i - 8))"
  using bit_at_append[of "[x]" r i] by (simp add: bit_at_def)

lemma AppendExtend_spec:
  assumes k: "sized_key k" and x: "sized_key ext" and t: "1 \<le> length_T t"
    and A: "int A = bytesNeeded (length_K k + length_T t)"
    and w: "appendIntoBuffer k (replicate A 0) t = Some w" "length w = A"
  shows "\<exists>r. AppendExtend k t ext = Some r
           \<and> length_K r = length_K k + length_T t + length_K ext \<and> sized_key r
           \<and> (\<forall>i < 8 * length (value_K r). bit_at (value_K r) i \<longleftrightarrow>
                 (i < 8 * A \<and> bit_at w i)
               \<or> (nat (length_K k + length_T t) \<le> i
                  \<and> i - nat (length_K k + length_T t) < 8 * length (value_K ext)
                  \<and> bit_at (value_K ext) (i - nat (length_K k + length_T t))))"
proof -
  define ev where "ev = value_K ext"
  define LT where "LT = nat (length_K k + length_T t)"
  define E where "E = nat (length_K ext)"
  have E: "length_K ext = int E" "E \<le> 8 * length ev" "8 * length ev < E + 8"
    using sized_key_bounds[OF x] by (simp_all add: E_def ev_def)
  have N0: "0 \<le> length_K k + length_T t" using sized_key_bounds(1)[OF k] t by simp
  have LT: "length_K k + length_T t = int LT" "1 \<le> LT"
    using N0 sized_key_bounds(1)[OF k] t by (simp_all add: LT_def)
  have Ab: "LT \<le> 8 * A" "8 * A < LT + 8"
    using bytesNeeded_bounds[OF N0] A LT(1) by simp_all
  have A1: "1 \<le> A" using Ab LT(2) by linarith
  define Mt where "Mt = nat (bytesNeeded (int (LT + E)))"
  have nn: "0 \<le> int (LT + E)" by simp
  note bb = bytesNeeded_bounds[OF nn]
  have "0 \<le> bytesNeeded (int (LT + E))" using bb by linarith
  then have Mt': "bytesNeeded (int (LT + E)) = int Mt" by (simp only: Mt_def nat_0_le)
  have Mtb: "LT + E \<le> 8 * Mt" "8 * Mt < LT + E + 8"
    using bb unfolding Mt' by linarith+
  have "length_K k + length_T t + length_K ext = int (LT + E)" by (simp add: LT(1) E(1))
  then have Mt: "bytesNeeded (length_K k + length_T t + length_K ext) = int Mt"
    using Mt' by simp
  have AM: "A \<le> Mt" using Ab Mtb by linarith
  define z where "z = replicate (Mt - A) (0 :: byte)"
  define R where "R = LT - 8 * (A - 1)"
  have R: "LT = 8 * (A - 1) + R" "1 \<le> R" "R \<le> 8" using Ab A1 by (simp_all add: R_def)
  obtain a where a: "A = Suc a" using A1 by (cases A) auto
  have la: "a < length w" using w(2) a by simp
  have wl: "take a w @ [w ! a] = w"
    using take_Suc_conv_app_nth[OF la] w(2) a by simp
  have wd: "drop a w = [w ! a]"
    using Cons_nth_drop_Suc[OF la] w(2) a by simp
  have s1: "make_bytes (bytesNeeded (length_K k + length_T t + length_K ext)) = Some (replicate Mt 0)"
    by (simp only: Mt make_bytes_nat)
  have s2: "slice_to (replicate Mt 0) (int A) = Some (replicate A 0)"
    "slice_from (replicate Mt (0 :: byte)) (int A) = Some z"
    using AM by (simp_all add: slice_to_def slice_from_def len_def z_def min_def)
  have i: "int A - 1 = int a" by (simp add: a)
  have s3: "slice_to (w @ z) (int a) = Some (take a w)"
    "slice_from (w @ z) (int a) = Some (w ! a # z)"
    using la wd by (simp_all add: slice_to_def slice_from_def len_def)
  have s4: "slice_to (b # z) 1 = Some [b]" "slice_from (b # z) 1 = Some z" for b :: byte
    by (simp_all add: slice_to_def slice_from_def len_def)
  have pre: "AppendExtend k t ext =
    (if length_K ext = 0
     then Some \<lparr>length_K = length_K k + length_T t + length_K ext, value_K = take a w @ w ! a # z\<rparr>
     else if (length_K k + length_T t) smod 8 = 0
     then Some \<lparr>length_K = length_K k + length_T t + length_K ext,
                 value_K = take a w @ [w ! a] @ copy z ev\<rparr>
     else do {
       e0 \<leftarrow> at ev 0;
       s \<leftarrow> shr e0 ((length_K k + length_T t) smod 8);
       b0 \<leftarrow> at (w ! a # z) 0;
       extensionBuffer \<leftarrow> set_at (w ! a # z) 0 (b0 OR s);
       first \<leftarrow> slice_to extensionBuffer 1;
       rest \<leftarrow> slice_from extensionBuffer 1;
       rest \<leftarrow> shiftCopy rest ev (dualBitIndex ((length_K k + length_T t) smod 8));
       Some \<lparr>length_K = length_K k + length_T t + length_K ext, value_K = take a w @ first @ rest\<rparr>
     })"
    unfolding AppendExtend_def Let_def s1 A[symmetric] bind.bind_lunit s2 w(1) i s3 s4 ev_def ..
  have tot: "length_K k + length_T t + length_K ext = int (LT + E)" by (simp add: LT(1) E(1))
  have LTa: "LT = 8 * a + R" using R(1) a by simp
  have fin: ?thesis
    if r: "AppendExtend k t ext = Some \<lparr>length_K = int (LT + E), value_K = v\<rparr>"
      and lv: "length v = Mt"
      and bv: "\<And>i. i < 8 * Mt \<Longrightarrow> bit_at v i \<longleftrightarrow>
                 (i < 8 * A \<and> bit_at w i)
               \<or> (LT \<le> i \<and> i - LT < 8 * length ev \<and> bit_at ev (i - LT))" for v
  proof -
    have "sized_key \<lparr>length_K = int (LT + E), value_K = v\<rparr>"
      by (rule sized_keyI) (use Mtb lv in simp_all)
    then show ?thesis
      using r lv bv unfolding tot LT_def[symmetric] ev_def[symmetric] by simp
  qed
  show ?thesis
  proof (cases "E = 0")
    case True
    have "Mt = A" using Mtb Ab True by linarith
    then have z: "z = []" by (simp add: z_def)
    have "AppendExtend k t ext = Some \<lparr>length_K = int (LT + E), value_K = w\<rparr>"
      unfolding pre tot using True wl by (simp add: E(1) z)
    moreover have "length ev = 0" using E True by linarith
    ultimately show ?thesis using \<open>Mt = A\<close> w(2) by (intro fin[of w]) simp_all
  next
    case False
    then have E0: "length_K ext \<noteq> 0" by (simp add: E(1))
    have ev1: "1 \<le> length ev" using E False by linarith
    show ?thesis
    proof (cases "R = 8")
      case True
      have "LT mod 8 = 0" using LTa True by simp
      then have m0: "(length_K k + length_T t) smod 8 = 0"
        by (simp only: LT(1) smod8_nat of_nat_0)
      have zl: "length z = Mt - A" by (simp add: z_def)
      have lz: "length z = length ev" using Mtb E LTa True a AM unfolding zl by linarith
      then have c: "copy z ev = ev" by (simp add: copy_def)
      have r: "AppendExtend k t ext = Some \<lparr>length_K = int (LT + E), value_K = w @ ev\<rparr>"
        unfolding pre tot using E0 m0 wl by (simp add: c)
      have l: "length (w @ ev) = Mt" using lz w(2) AM by (simp add: z_def)
      have "LT = 8 * A" using LTa True a by simp
      then have b: "bit_at (w @ ev) i \<longleftrightarrow> (i < 8 * A \<and> bit_at w i)
               \<or> (LT \<le> i \<and> i - LT < 8 * length ev \<and> bit_at ev (i - LT))"
        if "i < 8 * Mt" for i
        using that l w(2) by (auto simp: bit_at_append)
      show ?thesis by (rule fin[OF r l b])
    next
      case False
      then have R8: "R < 8" using R(3) by simp
      have "LT mod 8 = R" using LTa R8 by simp
      then have m0: "(length_K k + length_T t) smod 8 = int R"
        by (simp only: LT(1) smod8_nat)
      have zl: "length z = Mt - A" by (simp add: z_def)
      have lz1: "length ev - 1 \<le> length z" and lz2: "length z \<le> length ev"
        using Mtb E LTa a R(2) R8 AM unfolding zl by linarith+
      have d1: "dualBitIndex (int R) = int (8 - R)" using R(2) R8 by (simp add: dualBitIndex_nat)
      have "dualBitIndex (int (8 - R)) = int ((8 - (8 - R)) mod 8)"
        by (rule dualBitIndex_nat) simp
      moreover have "(8 - (8 - R)) mod 8 = R" using R(2) R8 by simp
      ultimately have d2: "nat (dualBitIndex (int (8 - R))) = R" by (simp only: nat_int)
      from shiftCopy_spec[of "int (8 - R)" ev z] lz1 lz2
      obtain rest where rest: "shiftCopy z ev (int (8 - R)) = Some rest" "length rest = length z"
        "\<forall>j < length z. rest ! j = shifted ev (8 - R) R j"
        unfolding d2 by auto
      define x where "x = w ! a OR drop_bit R (ev ! 0)"
      have s5: "at ev 0 = Some (ev ! 0)" "shr (ev ! 0) (int R) = Some (drop_bit R (ev ! 0))"
        "at (w ! a # z) 0 = Some (w ! a)" "set_at (w ! a # z) 0 x = Some (x # z)"
        using ev1 by (auto simp: at_def shr_def set_at_def len_def)
      have r: "AppendExtend k t ext =
          Some \<lparr>length_K = int (LT + E), value_K = take a w @ [x] @ rest\<rparr>"
        unfolding pre tot m0 d1 using E0 R(2)
        by (simp add: s5 x_def[symmetric] s4 rest(1))
      have l: "length (take a w @ [x] @ rest) = Mt"
        using la rest(2) AM a by (simp add: z_def)
      have b: "bit_at (take a w @ [x] @ rest) i \<longleftrightarrow> (i < 8 * A \<and> bit_at w i)
               \<or> (LT \<le> i \<and> i - LT < 8 * length ev \<and> bit_at ev (i - LT))"
        if i: "i < 8 * Mt" for i
      proof -
        define tw where "tw = take a w"
        have lt: "length tw = a" using la by (simp add: tw_def)
        have tb: "bit_at tw j = bit_at w j" if "j < 8 * a" for j
        proof -
          have "j div 8 < a" using that by simp
          then show ?thesis by (simp add: tw_def bit_at_def)
        qed
        have "bit_at (tw @ [x] @ rest) i \<longleftrightarrow> (i < 8 * A \<and> bit_at w i)
               \<or> (LT \<le> i \<and> i - LT < 8 * length ev \<and> bit_at ev (i - LT))"
        proof -
          consider "i < 8 * a" | "8 * a \<le> i" "i < 8 * A" | "8 * A \<le> i" by linarith
          then show ?thesis
          proof cases
            case 1
            have "bit_at (tw @ [x] @ rest) i = bit_at tw i"
              using 1 by (simp add: bit_at_append lt)
            then have "bit_at (tw @ [x] @ rest) i = bit_at w i" using tb[OF 1] by simp
            then show ?thesis using 1 LTa a by simp
          next
            case 2
            define o' where "o' = i - 8 * a"
            have o: "i = 8 * a + o'" "o' < 8" using 2 a by (simp_all add: o'_def)
            have "bit_at (tw @ [x] @ rest) i = bit_at ([x] @ rest) o'"
              using 2 by (simp add: bit_at_append lt o'_def)
            also have "\<dots> = bit x (7 - o')" using o(2) by (simp add: bit_at_Cons)
            also have "\<dots> \<longleftrightarrow> bit (w ! a) (7 - o') \<or> bit (ev ! 0) (R + (7 - o'))"
              unfolding x_def by (simp only: bit_or_iff bit_drop_bit_eq o_apply)
            also have "bit (w ! a) (7 - o') = bit_at w i" using o by (simp add: bit_at_def)
            also have "bit (ev ! 0) (R + (7 - o')) \<longleftrightarrow>
                (LT \<le> i \<and> i - LT < 8 * length ev \<and> bit_at ev (i - LT))"
            proof (cases "R \<le> o'")
              case True
              then have "i - LT = o' - R" "LT \<le> i" "o' - R < 8" "R + (7 - o') = 7 - (o' - R)"
                using o LTa by simp_all
              then show ?thesis using ev1 by (simp add: bit_at_def)
            next
              case False
              then have "\<not> LT \<le> i" "\<not> R + (7 - o') < 8" using o LTa by simp_all
              then show ?thesis by (auto dest: bit_imp_le_length)
            qed
            finally show ?thesis using 2 by simp
          next
            case 3
            define i' where "i' = i - 8 * A"
            have i': "i = 8 * A + i'" "i' < 8 * length z"
              using 3 i AM by (simp_all add: i'_def z_def)
            have "bit_at (tw @ [x] @ rest) i = bit_at ([x] @ rest) (i - 8 * a)"
              using 3 a by (simp add: bit_at_append lt)
            also have "\<dots> = bit_at rest i'"
            proof -
              have "\<not> i - 8 * a < 8" "i - 8 * a - 8 = i'" using 3 a by (simp_all add: i'_def)
              then show ?thesis by (simp add: bit_at_Cons)
            qed
            also have "\<dots> = bit (shifted ev (8 - R) R (i' div 8)) (7 - i' mod 8)"
              using rest(3) i'(2) by (simp add: bit_at_def)
            also have "\<dots> \<longleftrightarrow> (i' + (8 - R) < 8 * length ev \<and> bit_at ev (i' + (8 - R)))"
              using bit_shifted[of "8 - R" i' ev] R(2) R8 i'(2) lz2 by simp
            also have "i' + (8 - R) = i - LT" using i'(1) LTa a R8 by simp
            finally show ?thesis using 3 LTa a R8 by auto
          qed
        qed
        then show ?thesis by (simp only: tw_def)
      qed
      show ?thesis by (rule fin[OF r l b])
    qed
  qed

qed

lemma AppendExtend_bits:
  assumes k: "sized_key k" and x: "sized_key ext" and t: "1 \<le> length_T t"
  shows "\<exists>r. AppendExtend k t ext = Some r
           \<and> length_K r = length_K k + length_T t + length_K ext \<and> sized_key r
           \<and> (padding_zero k \<and> padding_zero ext \<longrightarrow> padding_zero r)
           \<and> (padding_zero k \<and> unat (value_T t) < 2 ^ nat (length_T t)
                \<and> length_K k mod 8 + length_T t \<le> 8
              \<longrightarrow> key_bits r = key_bits k @ token_bits t @ key_bits ext)"
proof -
  define L T E where "L = nat (length_K k)" and "T = nat (length_T t)" and "E = nat (length_K ext)"
  have L: "length_K k = int L" using sized_key_bounds(1)[OF k] by (simp add: L_def)
  have T: "length_T t = int T" using t by (simp add: T_def)
  have E: "length_K ext = int E" "E \<le> 8 * length (value_K ext)"
    using sized_key_bounds[OF x] by (simp_all add: E_def)
  have LT: "nat (length_K k + length_T t) = L + T" by (simp add: L T del: of_nat_add)
  have N0: "0 \<le> length_K k + length_T t" by (simp add: L T)
  define A where "A = nat (bytesNeeded (length_K k + length_T t))"
  have "0 \<le> bytesNeeded (length_K k + length_T t)"
    using bytesNeeded_bounds[OF N0] N0 by linarith
  then have A: "int A = bytesNeeded (length_K k + length_T t)" by (simp add: A_def)
  have Ab: "L + T \<le> 8 * A" using bytesNeeded_bounds(1)[OF N0] A L T by linarith
  from appendIntoBuffer_bits[OF k t A] obtain w where
    w: "appendIntoBuffer k (replicate A 0) t = Some w" "length w = A"
    and P2: "padding_zero k \<Longrightarrow> L + T \<le> i \<Longrightarrow> i < 8 * A \<Longrightarrow> \<not> bit_at w i"
    and P3: "unat (value_T t) < 2 ^ T \<Longrightarrow> i < L \<Longrightarrow> bit_at w i = bit_at (value_K k) i"
    and P4: "padding_zero k \<Longrightarrow> length_K k mod 8 + length_T t \<le> 8 \<Longrightarrow> j < T
              \<Longrightarrow> bit_at w (L + j) = bit (value_T t) (T - 1 - j)" for i j
    unfolding LT L_def[symmetric] T_def[symmetric] by blast
  from AppendExtend_spec[OF k x t A w] obtain r where
    r: "AppendExtend k t ext = Some r" "length_K r = length_K k + length_T t + length_K ext"
      "sized_key r"
    and b: "\<And>i. i < 8 * length (value_K r) \<Longrightarrow> bit_at (value_K r) i \<longleftrightarrow>
                 (i < 8 * A \<and> bit_at w i)
               \<or> (L + T \<le> i \<and> i - (L + T) < 8 * length (value_K ext)
                  \<and> bit_at (value_K ext) (i - (L + T)))"
    unfolding LT by blast
  have lr: "nat (length_K r) = L + T + E" by (simp add: r(2) L T E(1) del: of_nat_add)
  have rb: "L + T + E \<le> 8 * length (value_K r)" using sized_key_bounds(2)[OF r(3)] lr by simp
  have pad: "padding_zero r" if p: "padding_zero k" "padding_zero ext"
    unfolding padding_zero_def
  proof
    fix i assume "i \<in> {nat (length_K r) ..< 8 * length (value_K r)}"
    then have i: "L + T + E \<le> i" "i < 8 * length (value_K r)" using lr by simp_all
    have "\<not> (i < 8 * A \<and> bit_at w i)" using P2[OF p(1), of i] i(1) by auto
    moreover have "\<not> (i - (L + T) < 8 * length (value_K ext) \<and> bit_at (value_K ext) (i - (L + T)))"
      using p(2) i(1) by (auto simp: padding_zero_def E_def[symmetric])
    ultimately show "\<not> bit_at (value_K r) i" using b[OF i(2)] by simp
  qed
  have bits: "key_bits r = key_bits k @ token_bits t @ key_bits ext"
    if p: "padding_zero k" and s: "unat (value_T t) < 2 ^ T"
      and a: "length_K k mod 8 + length_T t \<le> 8"
  proof (rule nth_equalityI)
    show "length (key_bits r) = length (key_bits k @ token_bits t @ key_bits ext)"
      by (simp add: key_bits_def token_bits_def lr L_def T_def E_def)
  next
    fix i assume "i < length (key_bits r)"
    then have i: "i < L + T + E" by (simp add: key_bits_def lr)
    then have i8: "i < 8 * length (value_K r)" using rb by linarith
    have lhs: "key_bits r ! i = bit_at (value_K r) i" using i by (simp add: key_bits_def lr)
    consider "i < L" | "L \<le> i" "i < L + T" | "L + T \<le> i" by linarith
    then show "key_bits r ! i = (key_bits k @ token_bits t @ key_bits ext) ! i"
    proof cases
      case 1
      then have "i < 8 * A" using Ab by linarith
      then have "bit_at (value_K r) i = bit_at (value_K k) i"
        using b[OF i8] P3[OF s 1] 1 by simp
      then show ?thesis using 1 lhs by (simp add: nth_append key_bits_def L_def[symmetric])
    next
      case 2
      define j where "j = i - L"
      have j: "i = L + j" "j < T" using 2 by (simp_all add: j_def)
      have "i < 8 * A" using Ab 2 by linarith
      then have "bit_at (value_K r) i = bit (value_T t) (T - 1 - j)"
        using b[OF i8] P4[OF p a j(2)] 2 j(1) by simp
      then show ?thesis using 2 j lhs
        by (simp add: nth_append key_bits_def token_bits_def L_def[symmetric] T_def[symmetric])
    next
      case 3
      define j where "j = i - (L + T)"
      have j: "i = L + T + j" "j < E" using 3 i by (simp_all add: j_def)
      have "\<not> (i < 8 * A \<and> bit_at w i)" using P2[OF p 3] by auto
      moreover have "j < 8 * length (value_K ext)" using j(2) E(2) by linarith
      ultimately have "bit_at (value_K r) i = bit_at (value_K ext) j"
        using b[OF i8] 3 by (auto simp: j_def)
      then show ?thesis using 3 j lhs
        by (simp add: nth_append key_bits_def token_bits_def L_def[symmetric] T_def[symmetric]
            E_def[symmetric])
    qed
  qed
  show ?thesis using r pad bits unfolding T_def by blast
qed

lemma token_aligned:
  fixes m tbs :: int
  assumes "tbs \<in> {1, 2, 4, 8}" "tbs dvd m"
  shows "m mod 8 + tbs \<le> 8"
proof -
  have "tbs dvd 8" using assms(1) by auto
  then have "tbs dvd m mod 8" using assms(2) by (simp add: dvd_mod)
  then obtain c where c: "m mod 8 = tbs * c" by (auto simp: dvd_def)
  have r: "0 \<le> m mod 8" "m mod 8 < 8" by simp_all
  from assms(1) consider "tbs = 1" | "tbs = 2" | "tbs = 4" | "tbs = 8" by auto
  then show ?thesis using c r by cases auto
qed

lemma tokens_eq_iff:
  fixes a b :: byte
  assumes a: "\<And>j. bit a j \<longleftrightarrow> (j < T \<and> bit_at u (N + I + T - 1 - j))"
    and b: "\<And>j. bit b j \<longleftrightarrow> (j < T \<and> bit_at v (I + T - 1 - j))"
  shows "a = b \<longleftrightarrow> (\<forall>j. I \<le> j \<and> j < I + T \<longrightarrow> bit_at u (N + j) = bit_at v j)"
proof
  assume e: "a = b"
  show "\<forall>j. I \<le> j \<and> j < I + T \<longrightarrow> bit_at u (N + j) = bit_at v j"
  proof (intro allI impI)
    fix j assume "I \<le> j \<and> j < I + T"
    then have j: "I \<le> j" "j < I + T" by simp_all
    define j' where "j' = I + T - 1 - j"
    have j': "j' < T" "N + I + T - 1 - j' = N + j" "I + T - 1 - j' = j"
      using j unfolding j'_def by linarith+
    from e have "bit a j' = bit b j'" by simp
    then show "bit_at u (N + j) = bit_at v j" using j' a[of j'] b[of j'] by simp
  qed
next
  assume h: "\<forall>j. I \<le> j \<and> j < I + T \<longrightarrow> bit_at u (N + j) = bit_at v j"
  show "a = b"
  proof (rule bit_eqI)
    fix j'
    show "bit a j' = bit b j'"
    proof (cases "j' < T")
      case True
      then have "I \<le> I + T - 1 - j' \<and> I + T - 1 - j' < I + T"
        "N + (I + T - 1 - j') = N + I + T - 1 - j'" by linarith+
      then show ?thesis using h a[of j'] b[of j'] True by metis
    next
      case False
      then show ?thesis using a[of j'] b[of j'] by simp
    qed
  qed
qed

lemma iteratedHasPrefix_loop_spec:
  assumes k: "sized_key k" and p: "sized_key p" and tb: "tbs \<in> {1, 2, 4, 8}"
    and dp: "tbs dvd length_K p" and dn: "tbs dvd n" and n0: "0 \<le> n"
    and fit: "n + length_K p \<le> length_K k"
  shows "0 \<le> i \<Longrightarrow> tbs dvd i \<Longrightarrow> i \<le> length_K p \<Longrightarrow>
    iteratedHasPrefix_loop k p n tbs i
      = Some (\<forall>j. nat i \<le> j \<and> j < nat (length_K p)
                \<longrightarrow> bit_at (value_K k) (nat n + j) = bit_at (value_K p) j)"
proof (induction "nat (length_K p - i)" arbitrary: i rule: less_induct)
  case less
  have t1: "1 \<le> tbs" "0 < tbs" using tb by auto
  show ?case
  proof (cases "i < length_K p")
    case False
    then have "\<not> (nat i \<le> j \<and> j < nat (length_K p))" for j by linarith
    then show ?thesis using False by (subst iteratedHasPrefix_loop.simps) auto
  next
    case True
    have "tbs dvd length_K p - i" using dp less.prems(2) by (rule dvd_diff)
    then obtain c where c: "length_K p - i = tbs * c" by (auto simp: dvd_def)
    have "0 < tbs * c" using True c by linarith
    then have "0 < c" using t1(2) by (simp add: zero_less_mult_iff)
    then have "tbs * 1 \<le> tbs * c" using t1(2) by (intro mult_left_mono) simp_all
    then have nxt: "i + tbs \<le> length_K p" using c by linarith
    have lk: "n + i + tbs \<le> length_K k" using nxt fit by linarith
    have "n + i < 8 * len (value_K k)"
      using sized_key_bounds[OF k] lk t1 by (simp add: len_def)
    then have qk: "(n + i) div 8 < len (value_K k)" by simp
    have "i < 8 * len (value_K p)"
      using sized_key_bounds[OF p] nxt t1 by (simp add: len_def)
    then have qp: "i div 8 < len (value_K p)" by simp
    have ak: "(n + i) mod 8 + tbs \<le> 8" using tb dn less.prems(2) by (intro token_aligned) simp_all
    have ap: "i mod 8 + tbs \<le> 8" using tb less.prems(2) by (intro token_aligned)
    have ni: "0 \<le> n + i" using n0 less.prems(1) by simp
    from Token_spec[OF refl ni t1(1) ak qk] obtain a where
      a: "Token k (n + i) tbs = Some a"
        "\<And>j. bit a j \<longleftrightarrow> (j < nat tbs \<and> bit_at (value_K k) (nat (n + i) + nat tbs - 1 - j))"
      by blast
    from Token_spec[OF refl less.prems(1) t1(1) ap qp] obtain b where
      b: "Token p i tbs = Some b"
        "\<And>j. bit b j \<longleftrightarrow> (j < nat tbs \<and> bit_at (value_K p) (nat i + nat tbs - 1 - j))"
      by blast
    have "nat (n + i) = nat n + nat i" using n0 less.prems(1) by (simp add: nat_add_distrib)
    then have eq: "a = b \<longleftrightarrow>
        (\<forall>j. nat i \<le> j \<and> j < nat i + nat tbs
            \<longrightarrow> bit_at (value_K k) (nat n + j) = bit_at (value_K p) j)"
      using tokens_eq_iff[of a "nat tbs" "value_K k" "nat n" "nat i" b "value_K p"] a(2) b(2)
      by simp
    have m: "nat (length_K p - (i + tbs)) < nat (length_K p - i)" using True t1 by linarith
    have IH: "iteratedHasPrefix_loop k p n tbs (i + tbs)
      = Some (\<forall>j. nat (i + tbs) \<le> j \<and> j < nat (length_K p)
                \<longrightarrow> bit_at (value_K k) (nat n + j) = bit_at (value_K p) j)"
      using less.prems t1 nxt by (intro less.hyps[OF m]) simp_all
    have ns: "nat (i + tbs) = nat i + nat tbs" using less.prems(1) t1 by (simp add: nat_add_distrib)
    have le: "nat i + nat tbs \<le> nat (length_K p)" using nxt less.prems(1) t1 by linarith
    have split: "(\<forall>j. nat i \<le> j \<and> j < nat (length_K p)
                \<longrightarrow> bit_at (value_K k) (nat n + j) = bit_at (value_K p) j)
        \<longleftrightarrow> (\<forall>j. nat i \<le> j \<and> j < nat i + nat tbs
                \<longrightarrow> bit_at (value_K k) (nat n + j) = bit_at (value_K p) j)
          \<and> (\<forall>j. nat i + nat tbs \<le> j \<and> j < nat (length_K p)
                \<longrightarrow> bit_at (value_K k) (nat n + j) = bit_at (value_K p) j)"
      using le by (meson le_trans less_le_trans not_le le_add1)
    show ?thesis
    proof (cases "a = b")
      case True
      then show ?thesis
        using \<open>i < length_K p\<close> IH eq split
        by (subst iteratedHasPrefix_loop.simps) (simp add: a(1) b(1) ns)
    next
      case False
      then show ?thesis
        using \<open>i < length_K p\<close> eq split
        by (subst iteratedHasPrefix_loop.simps) (simp add: a(1) b(1))
    qed
  qed
qed

lemma valid_key_eq_iff:
  assumes a: "valid_key a" and b: "valid_key b"
  shows "a = b \<longleftrightarrow> length_K a = length_K b \<and> key_bits a = key_bits b"
proof
  assume "a = b" then show "length_K a = length_K b \<and> key_bits a = key_bits b" by simp
next
  assume h: "length_K a = length_K b \<and> key_bits a = key_bits b"
  define L where "L = nat (length_K a)"
  have sa: "sized_key a" and sb: "sized_key b" using a b by (simp_all add: valid_key_def)
  have La: "L \<le> 8 * length (value_K a)" "8 * length (value_K a) < L + 8"
    using sized_key_bounds[OF sa] by (simp_all add: L_def)
  have Lb: "L \<le> 8 * length (value_K b)" "8 * length (value_K b) < L + 8"
    using sized_key_bounds[OF sb] h by (simp_all add: L_def)
  have len: "length (value_K a) = length (value_K b)" using La Lb by linarith
  have low: "bit_at (value_K a) i = bit_at (value_K b) i" if "i < L" for i
  proof -
    have "key_bits a ! i = key_bits b ! i" using h by simp
    then show ?thesis using that h by (simp add: key_bits_def L_def)
  qed
  have high: "\<not> bit_at (value_K a) i \<and> \<not> bit_at (value_K b) i"
    if "L \<le> i" "i < 8 * length (value_K a)" for i
    using that a b h len by (simp add: valid_key_def padding_zero_def L_def)
  have "\<forall>i < 8 * length (value_K a). bit_at (value_K a) i = bit_at (value_K b) i"
  proof (intro allI impI)
    fix i assume "i < 8 * length (value_K a)"
    then show "bit_at (value_K a) i = bit_at (value_K b) i"
      using low[of i] high[of i] by (cases "i < L") auto
  qed
  then have "\<forall>j < length (value_K a). value_K a ! j = value_K b ! j"
    using bytes_eq_bits[of "length (value_K a)" "value_K a" "value_K b"] len by simp
  then have "value_K a = value_K b" using len by (simp add: list_eq_iff_nth_eq)
  then show "a = b" using h by simp
qed

lemma valid_ToKey: "valid_key (ToKey bs)"
proof -
  have "bytesNeeded (len bs * 8) = len bs"
    by (rule bytesNeeded_unique) (simp_all add: len_def)
  then show ?thesis
    by (simp add: valid_key_def sized_key_def padding_zero_def ToKey_def toKey_def len_def)
qed

lemma valid_Append:
  assumes "valid_key k" "1 \<le> length_T t"
  shows "\<exists>r. Append k t = Some r \<and> valid_key r"
  using Append_spec[of k t] assms by (auto simp: valid_key_def)

lemma valid_AppendExtend:
  assumes "valid_key k" "valid_key e" "1 \<le> length_T t"
  shows "\<exists>r. AppendExtend k t e = Some r \<and> valid_key r"
  using AppendExtend_bits[of k e t] assms by (auto simp: valid_key_def)

lemma valid_empty_Key: "valid_key empty_Key"
  by (simp add: valid_key_def sized_key_def padding_zero_def empty_Key_def len_def bytesNeeded_def)

lemma valid_Skip:
  assumes "valid_key k" "0 \<le> n"
  shows "\<exists>r. Skip k n = Some r \<and> valid_key r"
proof (cases "length_K k \<le> n")
  case True
  then show ?thesis using valid_empty_Key by (simp add: Skip_def)
next
  case False
  then have "n < length_K k" by simp
  from Skip_spec[OF _ assms(2) this] assms(1) show ?thesis by (auto simp: valid_key_def)
qed

lemma valid_Take:
  assumes "valid_key k" "0 \<le> n"
  shows "\<exists>r. Take k n = Some r \<and> valid_key r"
proof (cases "length_K k \<le> n")
  case True
  then show ?thesis using assms(1) by (simp add: Take_def)
next
  case False
  then have "n < length_K k" by simp
  from Take_spec[OF _ assms(2) this] assms(1) show ?thesis by (auto simp: valid_key_def)
qed

lemma lexordp_pos:
  fixes xs ys :: "'a::linorder list"
  shows "ord_class.lexordp xs ys \<longleftrightarrow>
     (length xs < length ys \<and> (\<forall>j < length xs. xs ! j = ys ! j))
     \<or> (\<exists>i. i < length xs \<and> i < length ys \<and> (\<forall>j < i. xs ! j = ys ! j) \<and> xs ! i < ys ! i)"
proof -
  have p: "take (length xs) ys = xs \<longleftrightarrow> (\<forall>j < length xs. xs ! j = ys ! j)"
    if "length xs < length ys"
    using that by (auto simp: list_eq_iff_nth_eq)
  have q: "take i xs = take i ys \<longleftrightarrow> (\<forall>j < i. xs ! j = ys ! j)"
    if "i < length xs" "i < length ys" for i
    using that by (auto simp: list_eq_iff_nth_eq)
  have "ord_class.lexordp xs ys \<longleftrightarrow> (xs, ys) \<in> lexord {(x, y). x < y}"
    by (rule lexordp_conv_lexord)
  also have "\<dots> \<longleftrightarrow> (length xs < length ys \<and> (\<forall>j < length xs. xs ! j = ys ! j))
     \<or> (\<exists>i. i < length xs \<and> i < length ys \<and> (\<forall>j < i. xs ! j = ys ! j) \<and> xs ! i < ys ! i)"
    unfolding lexord_take_index_conv using p q by auto
  finally show ?thesis .
qed

lemma nat_less_bits:
  fixes u v :: nat
  shows "u < 2 ^ n \<Longrightarrow> v < 2 ^ n \<Longrightarrow>
    u < v \<longleftrightarrow> (\<exists>k < n. (\<forall>j. k < j \<and> j < n \<longrightarrow> bit u j = bit v j) \<and> \<not> bit u k \<and> bit v k)"
proof (induction n arbitrary: u v)
  case 0
  then show ?case by simp
next
  case (Suc n)
  define u' v' where "u' = take_bit n u" and "v' = take_bit n v"
  have u: "u = 2 ^ n * of_bool (bit u n) + u'" and v: "v = 2 ^ n * of_bool (bit v n) + v'"
    using Suc.prems take_bit_Suc_from_most[of n u] take_bit_Suc_from_most[of n v]
    by (simp_all add: u'_def v'_def take_bit_nat_eq_self)
  have lt: "u' < 2 ^ n" "v' < 2 ^ n" by (simp_all add: u'_def v'_def)
  have b: "bit u' j = bit u j" "bit v' j = bit v j" if "j < n" for j
    using that by (simp_all add: u'_def v'_def bit_take_bit_iff)
  have IH: "u' < v' \<longleftrightarrow>
      (\<exists>k < n. (\<forall>j. k < j \<and> j < n \<longrightarrow> bit u j = bit v j) \<and> \<not> bit u k \<and> bit v k)"
    using Suc.IH[OF lt] b by auto
  define P where "P = (2::nat) ^ n"
  have uP: "bit u n \<Longrightarrow> u = P + u'" "\<not> bit u n \<Longrightarrow> u = u'"
    and vP: "bit v n \<Longrightarrow> v = P + v'" "\<not> bit v n \<Longrightarrow> v = v'"
    using u v by (simp_all add: P_def)
  have ltP: "u' < P" "v' < P" using lt by (simp_all add: P_def)
  show ?case
  proof (cases "bit u n = bit v n")
    case True
    have "u < v \<longleftrightarrow> u' < v'"
    proof (cases "bit u n")
      case T: True
      then have "u = P + u'" "v = P + v'" using uP(1) vP(1) True by simp_all
      then show ?thesis by linarith
    next
      case F: False
      then have "u = u'" "v = v'" using uP(2) vP(2) True by simp_all
      then show ?thesis by simp
    qed
    also have "\<dots> \<longleftrightarrow> (\<exists>k < Suc n. (\<forall>j. k < j \<and> j < Suc n \<longrightarrow> bit u j = bit v j)
        \<and> \<not> bit u k \<and> bit v k)"
      unfolding IH using True by (auto simp: less_Suc_eq)
    finally show ?thesis .
  next
    case False
    show ?thesis
    proof (cases "bit v n")
      case True
      then have nu: "\<not> bit u n" using False by simp
      then have "u = u'" "v = P + v'" using uP(2) vP(1) True by simp_all
      then have "u < v" using ltP by linarith
      moreover have "\<exists>k < Suc n. (\<forall>j. k < j \<and> j < Suc n \<longrightarrow> bit u j = bit v j)
        \<and> \<not> bit u k \<and> bit v k"
        using True nu by (intro exI[of _ n]) auto
      ultimately show ?thesis by simp
    next
      case F: False
      then have bu: "bit u n" using False by simp
      then have "u = P + u'" "v = v'" using uP(1) vP(2) F by simp_all
      then have "\<not> u < v" using ltP by linarith
      moreover have "\<not> (\<exists>k < Suc n. (\<forall>j. k < j \<and> j < Suc n \<longrightarrow> bit u j = bit v j)
        \<and> \<not> bit u k \<and> bit v k)"
        using F bu by (auto simp: less_Suc_eq)
      ultimately show ?thesis by simp
    qed
  qed
qed

lemma byte_less_bits:
  fixes x y :: byte
  shows "x < y \<longleftrightarrow> (\<exists>o' < 8. (\<forall>p < o'. bit x (7 - p) = bit y (7 - p))
                        \<and> \<not> bit x (7 - o') \<and> bit y (7 - o'))"
proof -
  have bx: "bit (unat x) j = bit x j" "bit (unat y) j = bit y j" if "j < 8" for j
    using that by (simp_all add: bit_unsigned_iff)
  have "unat x < 2 ^ 8" "unat y < 2 ^ 8" using unsigned_less[of x] unsigned_less[of y] by simp_all
  then have "x < y \<longleftrightarrow> (\<exists>k < 8. (\<forall>j. k < j \<and> j < 8 \<longrightarrow> bit (unat x) j = bit (unat y) j)
        \<and> \<not> bit (unat x) k \<and> bit (unat y) k)"
    using nat_less_bits[of "unat x" 8 "unat y"] by (simp add: word_less_nat_alt)
  also have "\<dots> \<longleftrightarrow> (\<exists>k < 8. (\<forall>j. k < j \<and> j < 8 \<longrightarrow> bit x j = bit y j) \<and> \<not> bit x k \<and> bit y k)"
    using bx by auto
  also have "\<dots> \<longleftrightarrow> (\<exists>o' < 8. (\<forall>p < o'. bit x (7 - p) = bit y (7 - p))
                        \<and> \<not> bit x (7 - o') \<and> bit y (7 - o'))"
  proof
    assume "\<exists>k < 8. (\<forall>j. k < j \<and> j < 8 \<longrightarrow> bit x j = bit y j) \<and> \<not> bit x k \<and> bit y k"
    then obtain k where k: "k < 8" "\<forall>j. k < j \<and> j < 8 \<longrightarrow> bit x j = bit y j" "\<not> bit x k" "bit y k"
      by blast
    have "7 - k < 8" "7 - (7 - k) = k" using k(1) by simp_all
    moreover have "\<forall>p < 7 - k. bit x (7 - p) = bit y (7 - p)"
    proof (intro allI impI)
      fix p assume "p < 7 - k"
      then have "k < 7 - p \<and> 7 - p < 8" by linarith
      then show "bit x (7 - p) = bit y (7 - p)" using k(2) by blast
    qed
    ultimately show "\<exists>o' < 8. (\<forall>p < o'. bit x (7 - p) = bit y (7 - p))
                        \<and> \<not> bit x (7 - o') \<and> bit y (7 - o')"
      using k(3,4) by (intro exI[of _ "7 - k"]) simp
  next
    assume "\<exists>o' < 8. (\<forall>p < o'. bit x (7 - p) = bit y (7 - p)) \<and> \<not> bit x (7 - o') \<and> bit y (7 - o')"
    then obtain o' where o: "o' < 8" "\<forall>p < o'. bit x (7 - p) = bit y (7 - p)"
      "\<not> bit x (7 - o')" "bit y (7 - o')" by blast
    have "\<forall>j. 7 - o' < j \<and> j < 8 \<longrightarrow> bit x j = bit y j"
    proof (intro allI impI)
      fix j assume "7 - o' < j \<and> j < 8"
      then have "7 - j < o'" "7 - (7 - j) = j" by linarith+
      then show "bit x j = bit y j" using o(2) by metis
    qed
    then show "\<exists>k < 8. (\<forall>j. k < j \<and> j < 8 \<longrightarrow> bit x j = bit y j) \<and> \<not> bit x k \<and> bit y k"
      using o by (intro exI[of _ "7 - o'"]) simp
  qed
  finally show ?thesis .
qed

lemma bytes_lex_bits:
  fixes va vb :: "byte list"
  shows "ord_class.lexordp va vb \<longleftrightarrow>
     (length va < length vb \<and> (\<forall>j < length va. va ! j = vb ! j))
     \<or> (\<exists>i < 8 * min (length va) (length vb).
           (\<forall>i' < i. bit_at va i' = bit_at vb i') \<and> \<not> bit_at va i \<and> bit_at vb i)"
proof -
  define m where "m = min (length va) (length vb)"
  have m: "m \<le> length va" "m \<le> length vb" by (simp_all add: m_def)
  have "(\<exists>j. j < length va \<and> j < length vb \<and> (\<forall>j' < j. va ! j' = vb ! j') \<and> va ! j < vb ! j)
      \<longleftrightarrow>
      (\<exists>i < 8 * m. (\<forall>i' < i. bit_at va i' = bit_at vb i') \<and> \<not> bit_at va i \<and> bit_at vb i)"
  proof
    assume "\<exists>j. j < length va \<and> j < length vb \<and> (\<forall>j' < j. va ! j' = vb ! j') \<and> va ! j < vb ! j"
    then obtain j where j: "j < m" "va ! j < vb ! j" and eqb: "\<forall>j' < j. va ! j' = vb ! j'"
      unfolding m_def by auto
    from j(2) obtain o' where o: "o' < 8" "\<forall>p < o'. bit (va ! j) (7 - p) = bit (vb ! j) (7 - p)"
      "\<not> bit (va ! j) (7 - o')" "bit (vb ! j) (7 - o')"
      unfolding byte_less_bits by blast
    have dm: "(8 * j + o') div 8 = j" "(8 * j + o') mod 8 = o'" using o(1) by simp_all
    have low: "bit_at va i' = bit_at vb i'" if "i' < 8 * j + o'" for i'
    proof (cases "i' div 8 < j")
      case True
      then show ?thesis using eqb by (simp add: bit_at_def)
    next
      case False
      define q r where "q = i' div 8" and "r = i' mod 8"
      have "i' = 8 * q + r" "\<not> q < j" using False by (simp_all add: q_def r_def)
      then have "q = j" "r < o'" using that o(1) by linarith+
      then have "i' div 8 = j" "i' mod 8 < o'" by (simp_all add: q_def r_def)
      then show ?thesis using o(2) by (simp add: bit_at_def)
    qed
    have "8 * j + o' < 8 * m" using j(1) o(1) by linarith
    then show "\<exists>i < 8 * m. (\<forall>i' < i. bit_at va i' = bit_at vb i') \<and> \<not> bit_at va i \<and> bit_at vb i"
      using low o(3,4) dm by (intro exI[of _ "8 * j + o'"]) (simp add: bit_at_def)
  next
    assume "\<exists>i < 8 * m. (\<forall>i' < i. bit_at va i' = bit_at vb i') \<and> \<not> bit_at va i \<and> bit_at vb i"
    then obtain i where i: "i < 8 * m" "\<forall>i' < i. bit_at va i' = bit_at vb i'"
      "\<not> bit_at va i" "bit_at vb i" by blast
    define j o' where "j = i div 8" and "o' = i mod 8"
    have e: "i = 8 * j + o'" and o8: "o' < 8" by (simp_all add: j_def o'_def)
    have jm: "j < m" using i(1) by (simp add: j_def)
    have "\<forall>i' < 8 * j. bit_at va i' = bit_at vb i'" using i(2) e by simp
    then have tk: "\<forall>j' < j. va ! j' = vb ! j'"
      using bytes_eq_bits[of j va vb] jm m by simp
    have "\<forall>p < o'. bit (va ! j) (7 - p) = bit (vb ! j) (7 - p)"
    proof (intro allI impI)
      fix p assume p: "p < o'"
      then have "8 * j + p < i" using e by simp
      then have "bit_at va (8 * j + p) = bit_at vb (8 * j + p)" using i(2) by blast
      moreover have "(8 * j + p) div 8 = j" "(8 * j + p) mod 8 = p" using p o8 by simp_all
      ultimately show "bit (va ! j) (7 - p) = bit (vb ! j) (7 - p)" by (simp add: bit_at_def)
    qed
    moreover have "\<not> bit (va ! j) (7 - o')" "bit (vb ! j) (7 - o')"
      using i(3,4) by (simp_all add: bit_at_def j_def o'_def)
    ultimately have "va ! j < vb ! j" unfolding byte_less_bits using o8 by blast
    then show "\<exists>j. j < length va \<and> j < length vb \<and> (\<forall>j' < j. va ! j' = vb ! j') \<and> va ! j < vb ! j"
      using jm m tk by (intro exI[of _ j]) simp
  qed
  then show ?thesis unfolding lexordp_pos m_def by simp
qed

lemma bits_lex_pos:
  assumes "0 \<le> length_K a" "0 \<le> length_K b"
  shows "ord_class.lexordp (key_bits a) (key_bits b) \<longleftrightarrow>
     (length_K a < length_K b
        \<and> (\<forall>i < nat (length_K a). bit_at (value_K a) i = bit_at (value_K b) i))
     \<or> (\<exists>i < min (nat (length_K a)) (nat (length_K b)).
           (\<forall>i' < i. bit_at (value_K a) i' = bit_at (value_K b) i')
           \<and> \<not> bit_at (value_K a) i \<and> bit_at (value_K b) i)"
proof -
  define A B where "A = key_bits a" and "B = key_bits b"
  define La Lb where "La = nat (length_K a)" and "Lb = nat (length_K b)"
  have l: "length A = La" "length B = Lb" by (simp_all add: A_def B_def key_bits_def La_def Lb_def)
  have n: "A ! i = bit_at (value_K a) i" if "i < La" for i
    using that by (simp add: A_def key_bits_def La_def)
  have n': "B ! i = bit_at (value_K b) i" if "i < Lb" for i
    using that by (simp add: B_def key_bits_def Lb_def)
  have lt: "length_K a < length_K b \<longleftrightarrow> La < Lb" using assms unfolding La_def Lb_def by linarith
  have 1: "(La < Lb \<and> (\<forall>j < La. A ! j = B ! j)) \<longleftrightarrow>
      (La < Lb \<and> (\<forall>i < La. bit_at (value_K a) i = bit_at (value_K b) i))"
    using n n' by auto
  have 2: "(\<exists>i. i < La \<and> i < Lb \<and> (\<forall>j < i. A ! j = B ! j) \<and> A ! i < B ! i) \<longleftrightarrow>
      (\<exists>i < min La Lb. (\<forall>i' < i. bit_at (value_K a) i' = bit_at (value_K b) i')
           \<and> \<not> bit_at (value_K a) i \<and> bit_at (value_K b) i)"
  proof -
    have "((\<forall>j < i. A ! j = B ! j) \<and> A ! i < B ! i) \<longleftrightarrow>
        ((\<forall>i' < i. bit_at (value_K a) i' = bit_at (value_K b) i')
           \<and> \<not> bit_at (value_K a) i \<and> bit_at (value_K b) i)"
      if i: "i < La" "i < Lb" for i
    proof -
      have "(\<forall>j < i. A ! j = B ! j) \<longleftrightarrow> (\<forall>i' < i. bit_at (value_K a) i' = bit_at (value_K b) i')"
        using i n n' by auto
      then show ?thesis using n[OF i(1)] n'[OF i(2)] by (simp add: less_bool_def)
    qed
    then show ?thesis by auto
  qed
  show ?thesis
    unfolding A_def[symmetric] B_def[symmetric] lexordp_pos l 1 2 lt La_def[symmetric] Lb_def[symmetric] ..
qed

lemma Less_iff_bits:
  assumes a: "valid_key a" and b: "valid_key b"
  shows "Less a b \<longleftrightarrow> ord_class.lexordp (key_bits a) (key_bits b)"
proof -
  define va vb where "va = value_K a" and "vb = value_K b"
  define La Lb where "La = nat (length_K a)" and "Lb = nat (length_K b)"
  have sa: "sized_key a" and sb: "sized_key b" using a b by (simp_all add: valid_key_def)
  have A: "length_K a = int La" "La \<le> 8 * length va" "8 * length va < La + 8"
    using sized_key_bounds[OF sa] by (simp_all add: La_def va_def)
  have B: "length_K b = int Lb" "Lb \<le> 8 * length vb" "8 * length vb < Lb + 8"
    using sized_key_bounds[OF sb] by (simp_all add: Lb_def vb_def)
  have pa: "\<not> bit_at va i" if "La \<le> i" "i < 8 * length va" for i
    using a that by (simp add: valid_key_def padding_zero_def La_def va_def)
  have pb: "\<not> bit_at vb i" if "Lb \<le> i" "i < 8 * length vb" for i
    using b that by (simp add: valid_key_def padding_zero_def Lb_def vb_def)
  have lt: "length_K a < length_K b \<longleftrightarrow> La < Lb" by (simp add: A(1) B(1))
  define X where "X \<longleftrightarrow> La < Lb \<and> (\<forall>i < La. bit_at va i = bit_at vb i)"
  define Y where "Y \<longleftrightarrow> (\<exists>i < min La Lb. (\<forall>i' < i. bit_at va i' = bit_at vb i')
      \<and> \<not> bit_at va i \<and> bit_at vb i)"
  define P where "P \<longleftrightarrow> length va < length vb \<and> (\<forall>j < length va. va ! j = vb ! j)"
  define Q where "Q \<longleftrightarrow> (\<exists>i < 8 * min (length va) (length vb).
      (\<forall>i' < i. bit_at va i' = bit_at vb i') \<and> \<not> bit_at va i \<and> bit_at vb i)"
  define R where "R \<longleftrightarrow> va = vb \<and> La < Lb"
  have h0: "0 \<le> length_K a" "0 \<le> length_K b" using A(1) B(1) by simp_all
  have bits: "ord_class.lexordp (key_bits a) (key_bits b) \<longleftrightarrow> X \<or> Y"
    unfolding X_def Y_def La_def Lb_def va_def vb_def lt[unfolded La_def Lb_def, symmetric]
    by (rule bits_lex_pos[OF h0])
  have less: "Less a b \<longleftrightarrow> P \<or> Q \<or> R"
    unfolding Less_def va_def[symmetric] vb_def[symmetric] lt bytes_lex_bits[of va vb]
      P_def Q_def R_def by blast
  have PX: "X" if P
  proof -
    have l: "length va < length vb" and e: "\<forall>j < length va. va ! j = vb ! j"
      using that by (simp_all add: P_def)
    have "La < Lb" using l A B by linarith
    moreover have "bit_at va i = bit_at vb i" if "i < La" for i
    proof -
      have "i div 8 < length va" using that A(2) by simp
      then show ?thesis using e by (simp add: bit_at_def)
    qed
    ultimately show X by (simp add: X_def)
  qed
  have QXY: "X \<or> Y" if Q
  proof -
    from that obtain i where i: "i < 8 * min (length va) (length vb)"
      "\<forall>i' < i. bit_at va i' = bit_at vb i'" "\<not> bit_at va i" "bit_at vb i"
      unfolding Q_def by blast
    have "i < 8 * length vb" using i(1) by simp
    then have ib: "i < Lb" using pb[of i] i(4) by (cases "i < Lb") auto
    show ?thesis
    proof (cases "i < La")
      case True
      then show ?thesis using i ib unfolding Y_def by auto
    next
      case False
      then have "La < Lb" "\<forall>i' < La. bit_at va i' = bit_at vb i'" using ib i(2) by auto
      then show ?thesis by (simp add: X_def)
    qed
  qed
  have RX: "X" if R using that by (simp add: R_def X_def)
  have YQ: "Q" if Y
  proof -
    from that obtain i where i: "i < min La Lb" "\<forall>i' < i. bit_at va i' = bit_at vb i'"
      "\<not> bit_at va i" "bit_at vb i" unfolding Y_def by blast
    have "i < 8 * length va" "i < 8 * length vb" using i(1) A(2) B(2) by simp_all
    then have "i < 8 * min (length va) (length vb)" by (simp add: min_def)
    then show Q unfolding Q_def using i by blast
  qed
  have XPQR: "P \<or> Q \<or> R" if X
  proof -
    have l: "La < Lb" and e: "\<forall>i < La. bit_at va i = bit_at vb i" using that by (simp_all add: X_def)
    have le: "length va \<le> length vb" using l A B by linarith
    show ?thesis
    proof (cases "\<forall>i < 8 * length va. bit_at va i = bit_at vb i")
      case True
      then have eq: "\<forall>j < length va. va ! j = vb ! j"
        using bytes_eq_bits[of "length va" va vb] le by simp
      show ?thesis
      proof (cases "length va < length vb")
        case True
        then show ?thesis using eq by (simp add: P_def)
      next
        case False
        then have "length va = length vb" using le by simp
        then have "va = vb" using eq by (simp add: list_eq_iff_nth_eq)
        then show ?thesis using l by (simp add: R_def)
      qed
    next
      case False
      then have "\<exists>i. i < 8 * length va \<and> bit_at va i \<noteq> bit_at vb i" by blast
      then obtain i where i: "i < 8 * length va \<and> bit_at va i \<noteq> bit_at vb i"
        and least: "\<forall>i' < i. \<not> (i' < 8 * length va \<and> bit_at va i' \<noteq> bit_at vb i')"
        using exists_least_iff[of "\<lambda>i. i < 8 * length va \<and> bit_at va i \<noteq> bit_at vb i"] by blast
      have "La \<le> i" using i e by (cases "i < La") auto
      then have na: "\<not> bit_at va i" using pa i by blast
      then have "bit_at vb i" using i by blast
      moreover have "\<forall>i' < i. bit_at va i' = bit_at vb i'" using least i by auto
      moreover have "i < 8 * min (length va) (length vb)" using i le by (simp add: min_def)
      ultimately show ?thesis unfolding Q_def using na by blast
    qed
  qed
  show ?thesis unfolding bits less using PX QXY RX YQ XPQR by blast
qed

lemma strict_prefix_append_cases:
  assumes "strict_prefix p (e1 @ e2)"
  shows "strict_prefix p e1 \<or> (\<exists>p'. p = e1 @ p' \<and> strict_prefix p' e2)"
proof -
  from assms have pr: "prefix p (e1 @ e2)" and ne: "p \<noteq> e1 @ e2" by (simp_all add: strict_prefix_def)
  from pr consider "prefix p e1" | us where "p = e1 @ us" "prefix us e2"
    by (auto simp: prefix_append)
  then show ?thesis
  proof cases
    case 1
    show ?thesis
    proof (cases "p = e1")
      case True
      then have "p = e1 @ []" "strict_prefix [] e2" using ne by (auto simp: strict_prefix_def)
      then show ?thesis by blast
    next
      case False
      then show ?thesis using 1 by (simp add: strict_prefix_def)
    qed
  next
    case 2
    then have "strict_prefix us e2" using ne by (auto simp: strict_prefix_def)
    then show ?thesis using 2(1) by blast
  qed
qed

lemma framed_return: "framed [] (returnP x) x"
  by (simp add: framed_def returnP_def)

lemma framed_bind:
  assumes "framed e1 P x" "framed e2 (f x) y"
  shows "framed (e1 @ e2) (bindP P f) y"
  unfolding framed_def
proof (intro conjI allI impI)
  fix rest
  show "bindP P f ((e1 @ e2) @ rest) = Inr (y, rest)"
    using assms by (simp add: framed_def bindP_def)
next
  fix p assume "strict_prefix p (e1 @ e2)"
  then consider "strict_prefix p e1" | p' where "p = e1 @ p'" "strict_prefix p' e2"
    using strict_prefix_append_cases by blast
  then show "bindP P f p = Inl EncodingTruncated"
  proof cases
    case 1
    then show ?thesis using assms(1) by (simp add: framed_def bindP_def)
  next
    case 2
    then show ?thesis using assms by (simp add: framed_def bindP_def)
  qed
qed

lemma framed_read_bytes: "length bs = n \<Longrightarrow> framed bs (read_bytes n) bs"
  by (auto simp: framed_def read_bytes_def dest: prefix_length_less)

lemma framed_read_byte: "framed [b] read_byte b"
  by (auto simp: framed_def read_byte_def strict_prefix_def prefix_Cons split: list.splits)

lemma framed_dec: "uint_codec enc dec B \<Longrightarrow> n < B \<Longrightarrow> framed (enc n) dec n"
  by (simp add: uint_codec_def framed_def)

lemma framed_value:
  assumes c: "uint_codec enc dec B" and v: "case v of None \<Rightarrow> True | Some bs \<Rightarrow> length bs < B"
  shows "framed (serialize_value enc v) (parse_value dec) v"
proof (cases v)
  case None
  have "framed ([0] @ []) (parse_value dec) None"
    unfolding parse_value_def by (rule framed_bind[OF framed_read_byte]) (simp add: framed_return)
  then show ?thesis using None by (simp add: serialize_value_def)
next
  case (Some bs)
  then have l: "length bs < B" using v by simp
  have "framed (enc (length bs) @ bs @ []) (bindP dec (\<lambda>n. bindP (read_bytes n) (\<lambda>v. returnP (Some v)))) (Some bs)"
    by (intro framed_bind[OF framed_dec[OF c l]] framed_bind[OF framed_read_bytes] framed_return refl)
  then have "framed ([1] @ enc (length bs) @ bs @ []) (parse_value dec) (Some bs)"
    unfolding parse_value_def by (intro framed_bind[OF framed_read_byte]) simp
  then show ?thesis using Some by (simp add: serialize_value_def)
qed

lemma framed_child:
  assumes c: "uint_codec enc dec B" and s: "sized_key (suffix_C ch)"
    and b: "nat (length_K (suffix_C ch)) < B" and d: "length (digest_C ch) = idLen"
  shows "framed (serialize_child enc ch) (parse_child dec idLen) ch"
proof -
  have 0: "0 \<le> length_K (suffix_C ch)" using sized_key_bounds(1)[OF s] .
  have "len (value_K (suffix_C ch)) = bytesNeeded (length_K (suffix_C ch))"
    using s by (simp add: sized_key_def)
  then have l: "length (value_K (suffix_C ch))
      = nat (bytesNeeded (int (nat (length_K (suffix_C ch)))))"
    using 0 by (simp add: len_def)
  have r: "\<lparr>token_C = token_C ch,
        suffix_C = \<lparr>length_K = int (nat (length_K (suffix_C ch))), value_K = value_K (suffix_C ch)\<rparr>,
        digest_C = digest_C ch\<rparr> = ch"
    using 0 by simp
  have "framed ([token_C ch] @ enc (nat (length_K (suffix_C ch))) @ value_K (suffix_C ch)
      @ digest_C ch @ []) (parse_child dec idLen) ch"
    unfolding parse_child_def
    by (intro framed_bind[OF framed_read_byte] framed_bind[OF framed_dec[OF c b]]
        framed_bind[OF framed_read_bytes[OF l]] framed_bind[OF framed_read_bytes[OF d]])
       (simp only: r framed_return)
  then show ?thesis by (simp add: serialize_child_def)
qed

lemma framed_children:
  assumes c: "uint_codec enc dec B"
    and a: "\<forall>ch \<in> set cs. sized_key (suffix_C ch) \<and> nat (length_K (suffix_C ch)) < B
              \<and> length (digest_C ch) = idLen"
  shows "framed (concat (map (serialize_child enc) cs)) (parse_children dec idLen (length cs)) cs"
  using a
proof (induction cs)
  case Nil
  then show ?case by (simp add: framed_return)
next
  case (Cons ch cs)
  have 1: "framed (serialize_child enc ch) (parse_child dec idLen) ch"
    using Cons.prems by (intro framed_child[OF c]) simp_all
  have 2: "framed (concat (map (serialize_child enc) cs)) (parse_children dec idLen (length cs)) cs"
    using Cons by simp
  have "framed (serialize_child enc ch @ concat (map (serialize_child enc) cs) @ [])
      (parse_children dec idLen (Suc (length cs))) (ch # cs)"
    unfolding parse_children.simps
    by (intro framed_bind[OF 1] framed_bind[OF 2] framed_return)
  then show ?case by simp
qed

lemma framed_body:
  assumes c: "uint_codec enc dec B" and e: "encodable B idLen n"
  shows "framed (serialize enc n) (parse_body dec idLen) (value_N n, children_N n)"
proof -
  have v: "case value_N n of None \<Rightarrow> True | Some bs \<Rightarrow> length bs < B"
    and k: "length (children_N n) < B"
    and a: "\<forall>ch \<in> set (children_N n). sized_key (suffix_C ch)
              \<and> nat (length_K (suffix_C ch)) < B \<and> length (digest_C ch) = idLen"
    using e by (simp_all add: encodable_def)
  have "framed (serialize_value enc (value_N n) @ enc (length (children_N n))
      @ concat (map (serialize_child enc) (children_N n)) @ [])
      (parse_body dec idLen) (value_N n, children_N n)"
    unfolding parse_body_def
    by (intro framed_bind[OF framed_value[OF c v]] framed_bind[OF framed_dec[OF c k]]
        framed_bind[OF framed_children[OF c a]] framed_return)
  then show ?thesis by (simp add: serialize_def)
qed

lemma uint_codec_u8: "uint_codec enc_u8 dec_u8 256"
proof -
  have "framed [of_nat n] dec_u8 n" if "n < 256" for n
  proof -
    have "unat (of_nat n :: byte) = n" using that by (simp add: unsigned_of_nat take_bit_nat_eq_self)
    then have "framed ([of_nat n] @ []) dec_u8 n"
      unfolding dec_u8_def by (intro framed_bind[OF framed_read_byte]) (simp add: framed_return)
    then show ?thesis by simp
  qed
  then show ?thesis by (simp add: uint_codec_def framed_def enc_u8_def)
qed

section \<open>Properties of the key codec, the proof iterator and the node codec\<close>

text \<open>
  C5.  For every key \<open>p\<close> of the data model and every non-negative \<open>n\<close>: \<open>Skip\<close> and
  \<open>Take\<close> return (they do not panic), \<open>p.Skip(n).Length() = max(0, p.Length() - n)\<close> and
  \<open>p.Take(n).Length() = min(n, p.Length())\<close>; \<open>Skip\<close> returns the empty key and \<open>Take\<close>
  returns \<open>p\<close> unchanged when \<open>n \<ge> p.Length()\<close>; \<open>p.Take(p.Length()) = p\<close> and
  \<open>p.Skip(0) = p\<close>.
\<close>

theorem Skip_Take_lengths:
  assumes "sized_key p" "0 \<le> n"
  shows "(\<exists>r. Skip p n = Some r \<and> Length r = max 0 (Length p - n)
              \<and> (Length p \<le> n \<longrightarrow> r = empty_Key))
       \<and> (\<exists>r. Take p n = Some r \<and> Length r = min n (Length p)
              \<and> (Length p \<le> n \<longrightarrow> r = p))
       \<and> Take p (Length p) = Some p
       \<and> Skip p 0 = Some p"
proof (intro conjI)
  show "\<exists>r. Skip p n = Some r \<and> Length r = max 0 (Length p - n) \<and> (Length p \<le> n \<longrightarrow> r = empty_Key)"
  proof (cases "length_K p \<le> n")
    case True
    then show ?thesis by (simp add: Skip_def Length_def empty_Key_def)
  next
    case False
    then have "n < length_K p" by simp
    from Skip_spec[OF assms this] False show ?thesis by (auto simp: Length_def)
  qed
  show "\<exists>r. Take p n = Some r \<and> Length r = min n (Length p) \<and> (Length p \<le> n \<longrightarrow> r = p)"
  proof (cases "length_K p \<le> n")
    case True
    then show ?thesis by (simp add: Take_def Length_def)
  next
    case False
    then have "n < length_K p" by simp
    from Take_spec[OF assms this] False show ?thesis by (auto simp: Length_def)
  qed
  show "Take p (Length p) = Some p" by (simp add: Take_def Length_def)
  show "Skip p 0 = Some p"
  proof (cases "length_K p \<le> 0")
    case True
    then have "length_K p = 0" using assms(1) by (simp add: sized_key_def)
    then show ?thesis using sized_key_empty[OF assms(1)] by (simp add: Skip_def empty_Key_def)
  next
    case False
    then show ?thesis by (simp add: Skip_def slice_from_def len_def)
  qed
qed

theorem Skip_Take_lengths_witness:
  "sized_key (ToKey [18, 52]) \<and> (0::int) \<le> 4
   \<and> (\<exists>r. Skip (ToKey [18, 52]) 4 = Some r \<and> Length r = 12)
   \<and> (\<exists>r. Take (ToKey [18, 52]) 4 = Some r \<and> Length r = 4)
   \<and> Take (ToKey [18, 52]) 16 = Some (ToKey [18, 52])
   \<and> Skip (ToKey [18, 52]) 0 = Some (ToKey [18, 52])"
proof -
  have h: "sized_key (ToKey [18, 52])"
    by (simp add: sized_key_def ToKey_def toKey_def len_def bytesNeeded_def)
  have l: "Length (ToKey [18, 52]) = 16"
    by (simp add: Length_def ToKey_def toKey_def len_def)
  show ?thesis using h Skip_Take_lengths[OF h, of 4] by (simp add: l)
qed

text \<open>
  C7.  As stated for every offset and size, the claim fails: \<open>Token\<close> reads one byte only,
  so of a token that crosses a byte boundary it returns the bits of the first byte.
  At offset 6 and size 4 in the 16-bit key \<open>03 C0\<close> the bits are \<open>1111\<close>; \<open>Token\<close> gives 0.
\<close>

theorem Token_counterexample:
  "sized_key (ToKey [3, 192]) \<and> 6 + 4 \<le> Length (ToKey [3, 192])
   \<and> Token (ToKey [3, 192]) 6 4
         \<noteq> Some (bits_to_byte (take 4 (drop 6 (key_bits (ToKey [3, 192])))))"
  by code_simp

text \<open>
  C7, amended.  \<open>ToKey([0b1010_0000]).Take(4)\<close> is the key of bit-length 4 over the buffer
  \<open>A0\<close>, and its \<open>Token(0, 4)\<close> is \<open>0b1010\<close>.  In general, for a key of the data model and a
  token of 1 to 8 bits that lies inside the key and inside one byte
  (\<open>bitOffset mod 8 + tokenBits \<le> 8\<close>), \<open>Token(bitOffset, tokenBits)\<close> is the byte holding the
  \<open>tokenBits\<close> bits of the key from \<open>bitOffset\<close> on, right-aligned, bits counted MSB-first.
\<close>

theorem Token_extracts:
  "Take (ToKey [0xA0]) 4 = Some \<lparr>length_K = 4, value_K = [0xA0]\<rparr>
   \<and> Token \<lparr>length_K = 4, value_K = [0xA0]\<rparr> 0 4 = Some 0b1010
   \<and> (sized_key k \<and> 0 \<le> bitOffset \<and> 1 \<le> tokenBits \<and> bitOffset + tokenBits \<le> Length k
        \<and> bitOffset mod 8 + tokenBits \<le> 8
      \<longrightarrow> Token k bitOffset tokenBits
            = Some (bits_to_byte (take (nat tokenBits) (drop (nat bitOffset) (key_bits k)))))"
proof (intro conjI impI)
  show "Take (ToKey [0xA0]) 4 = Some \<lparr>length_K = 4, value_K = [0xA0]\<rparr>" by code_simp
  show "Token \<lparr>length_K = 4, value_K = [0xA0]\<rparr> 0 4 = Some 0b1010" by code_simp
next
  assume "sized_key k \<and> 0 \<le> bitOffset \<and> 1 \<le> tokenBits \<and> bitOffset + tokenBits \<le> Length k
        \<and> bitOffset mod 8 + tokenBits \<le> 8"
  then show "Token k bitOffset tokenBits
            = Some (bits_to_byte (take (nat tokenBits) (drop (nat bitOffset) (key_bits k))))"
    by (intro Token_bits) (simp_all add: Length_def)
qed

theorem Token_extracts_witness:
  "sized_key (ToKey [3, 192]) \<and> (0::int) \<le> 4 \<and> (1::int) \<le> 4 \<and> 4 + 4 \<le> Length (ToKey [3, 192])
   \<and> (4::int) mod 8 + 4 \<le> 8
   \<and> Token (ToKey [3, 192]) 4 4
         = Some (bits_to_byte (take 4 (drop 4 (key_bits (ToKey [3, 192])))))"
proof -
  have h: "sized_key (ToKey [3, 192])"
    by (simp add: sized_key_def ToKey_def toKey_def len_def bytesNeeded_def)
  have l: "Length (ToKey [3, 192]) = 16"
    by (simp add: Length_def ToKey_def toKey_def len_def)
  show ?thesis using h l Token_extracts[of "ToKey [3, 192]" 4 4] by simp
qed

text \<open>
  C3.  For keys \<open>k\<close> and \<open>prefix\<close> of the data model, \<open>k.HasPrefix(prefix)\<close> returns true if
  and only if the bit sequence of \<open>prefix\<close> (its first \<open>prefix.length\<close> bits) is a prefix of the
  bit sequence of \<open>k\<close>, or \<open>prefix\<close> equals \<open>k\<close>; \<open>k.HasStrictPrefix(prefix)\<close> returns true if
  and only if it is such a prefix and is not equal to \<open>k\<close>.
\<close>

theorem HasPrefix_iff_bit_prefix:
  assumes "sized_key k" "sized_key pre"
  shows "HasPrefix k pre = Some (prefix (key_bits pre) (key_bits k) \<or> pre = k)
       \<and> HasStrictPrefix k pre = Some (prefix (key_bits pre) (key_bits k) \<and> pre \<noteq> k)"
proof -
  have "HasPrefix k pre = Some (prefix (key_bits pre) (key_bits k))"
    by (rule HasPrefix_spec[OF assms])
  then show ?thesis by (auto simp: HasStrictPrefix_def)
qed

theorem HasPrefix_iff_bit_prefix_witness:
  "sized_key (ToKey [0xAB, 0xCD]) \<and> sized_key \<lparr>length_K = 4, value_K = [0xA0]\<rparr>
   \<and> HasPrefix (ToKey [0xAB, 0xCD]) \<lparr>length_K = 4, value_K = [0xA0]\<rparr> = Some True
   \<and> HasStrictPrefix (ToKey [0xAB, 0xCD]) \<lparr>length_K = 4, value_K = [0xA0]\<rparr> = Some True"
proof -
  have h1: "sized_key (ToKey [0xAB, 0xCD])" by code_simp
  have h2: "sized_key \<lparr>length_K = 4, value_K = [0xA0]\<rparr>" by code_simp
  have e: "prefix (key_bits \<lparr>length_K = 4, value_K = [0xA0]\<rparr>) (key_bits (ToKey [0xAB, 0xCD]))"
    by code_simp
  have n: "\<lparr>length_K = 4, value_K = [0xA0]\<rparr> \<noteq> ToKey [0xAB, 0xCD]"
    by (simp add: ToKey_def toKey_def)
  show ?thesis using h1 h2 e n HasPrefix_iff_bit_prefix[OF h1 h2] by simp
qed

text \<open>
  C6.  For every key \<open>p\<close> of the data model and every token \<open>t\<close> with \<open>t.length\<close> in
  \<open>{1, 2, 4, 8}\<close> and \<open>t.value\<close> below the branch factor \<open>2 ^ t.length\<close>:
  \<open>p.Append(t).HasPrefix(p)\<close> and \<open>p.Append(t).HasStrictPrefix(p)\<close> are true; and
  \<open>p.HasPrefix(p)\<close> is true and \<open>p.HasStrictPrefix(p)\<close> is false.
\<close>

theorem Append_HasPrefix:
  assumes "sized_key p" "length_T t \<in> {1, 2, 4, 8}" "unat (value_T t) < 2 ^ nat (length_T t)"
  shows "(\<exists>r. Append p t = Some r \<and> HasPrefix r p = Some True \<and> HasStrictPrefix r p = Some True)
       \<and> HasPrefix p p = Some True \<and> HasStrictPrefix p p = Some False"
proof -
  have t: "1 \<le> length_T t" using assms(2) by auto
  from Append_spec[OF assms(1) t] assms(3) obtain r where
    r: "Append p t = Some r" "length_K r = length_K p + length_T t" "sized_key r"
      "\<forall>i < nat (length_K p). bit_at (value_K r) i = bit_at (value_K p) i"
    by blast
  have 0: "0 \<le> length_K p" "0 \<le> length_K r"
    using sized_key_bounds(1)[OF assms(1)] sized_key_bounds(1)[OF r(3)] by simp_all
  have "prefix (key_bits p) (key_bits r)"
    using r(2,4) t by (simp add: key_bits_prefix[OF 0])
  then have h: "HasPrefix r p = Some True" by (simp add: HasPrefix_spec[OF r(3) assms(1)])
  have "r \<noteq> p" using r(2) t by auto
  then have hs: "HasStrictPrefix r p = Some True" using h by (simp add: HasStrictPrefix_def)
  have "HasPrefix p p = Some True" by (simp add: HasPrefix_spec[OF assms(1) assms(1)])
  then show ?thesis using r(1) h hs by (simp add: HasStrictPrefix_def)
qed

theorem Append_HasPrefix_witness:
  "sized_key \<lparr>length_K = 4, value_K = [0xA0]\<rparr>
   \<and> length_T \<lparr>length_T = 4, value_T = 11\<rparr> \<in> {1, 2, 4, 8}
   \<and> unat (value_T \<lparr>length_T = 4, value_T = 11\<rparr>) < 2 ^ nat (length_T \<lparr>length_T = 4, value_T = 11\<rparr>)
   \<and> (\<exists>r. Append \<lparr>length_K = 4, value_K = [0xA0]\<rparr> \<lparr>length_T = 4, value_T = 11\<rparr> = Some r
          \<and> HasPrefix r \<lparr>length_K = 4, value_K = [0xA0]\<rparr> = Some True
          \<and> HasStrictPrefix r \<lparr>length_K = 4, value_K = [0xA0]\<rparr> = Some True)
   \<and> HasPrefix \<lparr>length_K = 4, value_K = [0xA0]\<rparr> \<lparr>length_K = 4, value_K = [0xA0]\<rparr> = Some True
   \<and> HasStrictPrefix \<lparr>length_K = 4, value_K = [0xA0]\<rparr> \<lparr>length_K = 4, value_K = [0xA0]\<rparr> = Some False"
proof -
  have h1: "sized_key \<lparr>length_K = 4, value_K = [0xA0]\<rparr>" by code_simp
  have h2: "length_T \<lparr>length_T = 4, value_T = 11\<rparr> \<in> {1, 2, 4, 8}" by simp
  have h3: "unat (value_T \<lparr>length_T = 4, value_T = 11\<rparr>)
      < 2 ^ nat (length_T \<lparr>length_T = 4, value_T = 11\<rparr>)" by simp
  show ?thesis using h1 h2 h3 Append_HasPrefix[OF h1 h2 h3] by blast
qed

text \<open>
  C4.  As stated for every key, the claim fails where the token does not fit into the last
  byte of \<open>k\<close>: the token is shifted into the last byte of the enlarged buffer only.  The
  4-bit key \<open>1010\<close> extended by the 8-bit token \<open>11111111\<close> and the empty key should read
  \<open>1010 1111 1111\<close>; the code returns \<open>1010 0000 1111\<close>.
\<close>

theorem AppendExtend_counterexample:
  "valid_key \<lparr>length_K = 4, value_K = [0xA0]\<rparr> \<and> valid_key empty_Key
   \<and> AppendExtend \<lparr>length_K = 4, value_K = [0xA0]\<rparr> \<lparr>length_T = 8, value_T = 0xFF\<rparr> empty_Key
       = Some \<lparr>length_K = 12, value_K = [0xA0, 0xF0]\<rparr>
   \<and> key_bits \<lparr>length_K = 12, value_K = [0xA0, 0xF0]\<rparr>
       \<noteq> key_bits \<lparr>length_K = 4, value_K = [0xA0]\<rparr>
           @ token_bits \<lparr>length_T = 8, value_T = 0xFF\<rparr> @ key_bits empty_Key"
  by code_simp

text \<open>
  C4, amended.  For every key \<open>k\<close> satisfying the representation invariant, every token \<open>t\<close>
  with \<open>t.length\<close> in \<open>{1, 2, 4, 8}\<close> and \<open>t.value\<close> below \<open>2 ^ t.length\<close> that fits into the
  last byte of \<open>k\<close> (\<open>k.length mod 8 + t.length \<le> 8\<close>, as whenever \<open>k.length\<close> is a multiple of
  \<open>t.length\<close>), and every extension key \<open>e\<close> of the data model, \<open>k.AppendExtend(t, e)\<close> returns
  a key of bit-length \<open>k.length + t.length + e.length\<close> whose bit sequence is the bits of
  \<open>k\<close>, then the \<open>t.length\<close> bits of \<open>t\<close>, then the bits of \<open>e\<close>, also when
  \<open>k.length + t.length\<close> is not a multiple of 8.
\<close>

theorem AppendExtend_concatenates:
  assumes "valid_key k" "sized_key e" "length_T t \<in> {1, 2, 4, 8}"
    "unat (value_T t) < 2 ^ nat (length_T t)" "length_K k mod 8 + length_T t \<le> 8"
  shows "\<exists>r. AppendExtend k t e = Some r
           \<and> Length r = Length k + length_T t + Length e
           \<and> key_bits r = key_bits k @ token_bits t @ key_bits e"
proof -
  have t: "1 \<le> length_T t" using assms(3) by auto
  from AppendExtend_bits[OF _ assms(2) t, of k] assms(1,4,5)
  show ?thesis by (auto simp: valid_key_def Length_def)
qed

theorem AppendExtend_concatenates_witness:
  "valid_key \<lparr>length_K = 0, value_K = []\<rparr> \<and> sized_key \<lparr>length_K = 12, value_K = [0xF1, 0x70]\<rparr>
   \<and> length_T \<lparr>length_T = 4, value_T = 3\<rparr> \<in> {1, 2, 4, 8}
   \<and> unat (value_T \<lparr>length_T = 4, value_T = 3\<rparr>) < 2 ^ nat (length_T \<lparr>length_T = 4, value_T = 3\<rparr>)
   \<and> length_K \<lparr>length_K = 0, value_K = []\<rparr> mod 8 + length_T \<lparr>length_T = 4, value_T = 3\<rparr> \<le> 8
   \<and> (\<exists>r. AppendExtend \<lparr>length_K = 0, value_K = []\<rparr> \<lparr>length_T = 4, value_T = 3\<rparr>
              \<lparr>length_K = 12, value_K = [0xF1, 0x70]\<rparr> = Some r
          \<and> Length r = 16
          \<and> key_bits r = key_bits \<lparr>length_K = 0, value_K = []\<rparr>
               @ token_bits \<lparr>length_T = 4, value_T = 3\<rparr>
               @ key_bits \<lparr>length_K = 12, value_K = [0xF1, 0x70]\<rparr>)"
proof -
  have h1: "valid_key \<lparr>length_K = 0, value_K = []\<rparr>" by code_simp
  have h2: "sized_key \<lparr>length_K = 12, value_K = [0xF1, 0x70]\<rparr>" by code_simp
  have h3: "length_T \<lparr>length_T = 4, value_T = 3\<rparr> \<in> {1, 2, 4, 8}" by simp
  have h4: "unat (value_T \<lparr>length_T = 4, value_T = 3\<rparr>)
      < 2 ^ nat (length_T \<lparr>length_T = 4, value_T = 3\<rparr>)" by simp
  have h5: "length_K \<lparr>length_K = 0, value_K = []\<rparr> mod 8
      + length_T \<lparr>length_T = 4, value_T = 3\<rparr> \<le> 8" by simp
  show ?thesis
    using h1 h2 h3 h4 h5 AppendExtend_concatenates[OF h1 h2 h3 h4 h5]
    by (simp add: Length_def)
qed

text \<open>
  C10.  As stated for every \<open>bitsToSkip\<close>, the claim fails when more bits are skipped than
  the key has and the prefix is empty: \<open>iteratedHasPrefix\<close> answers false from its length
  guard, while \<open>Skip\<close> returns the empty key, of which the empty key is a prefix.
\<close>

theorem iteratedHasPrefix_counterexample:
  "sized_key (ToKey []) \<and> sized_key empty_Key
   \<and> (4 :: int) dvd length_K empty_Key \<and> (4 :: int) dvd 8
   \<and> iteratedHasPrefix (ToKey []) empty_Key 8 4 = Some False
   \<and> Skip (ToKey []) 8 = Some empty_Key
   \<and> HasPrefix empty_Key empty_Key = Some True"
  by (simp add: sized_key_def ToKey_def toKey_def empty_Key_def len_def bytesNeeded_def
      iteratedHasPrefix_def Skip_def HasPrefix_def remainderBitCount_def)

text \<open>
  C10, amended.  For keys \<open>k\<close> and \<open>prefix\<close> of the data model, \<open>tokenBitSize\<close> in
  \<open>{1, 2, 4, 8}\<close>, the length of \<open>prefix\<close> and \<open>bitsToSkip \<ge> 0\<close> multiples of \<open>tokenBitSize\<close>, and
  \<open>bitsToSkip \<le> k.length\<close> or \<open>prefix\<close> not empty: \<open>k.iteratedHasPrefix(prefix, bitsToSkip,
  tokenBitSize)\<close> returns, and returns the boolean that \<open>k.Skip(bitsToSkip).HasPrefix(prefix)\<close>
  returns.
\<close>

theorem iteratedHasPrefix_refines:
  assumes k: "sized_key k" and p: "sized_key pre" and tb: "tokenBitSize \<in> {1, 2, 4, 8}"
    and dp: "tokenBitSize dvd length_K pre" and dn: "tokenBitSize dvd bitsToSkip"
    and n0: "0 \<le> bitsToSkip"
    and dom: "length_K k < bitsToSkip \<longrightarrow> 0 < length_K pre"
  shows "\<exists>b r. iteratedHasPrefix k pre bitsToSkip tokenBitSize = Some b
           \<and> Skip k bitsToSkip = Some r \<and> HasPrefix r pre = Some b"
proof (cases "length_K k \<le> bitsToSkip")
  case True
  have S: "Skip k bitsToSkip = Some empty_Key" using True by (simp add: Skip_def)
  have e: "sized_key empty_Key" by (simp add: sized_key_def empty_Key_def len_def bytesNeeded_def)
  have p0: "0 \<le> length_K pre" using sized_key_bounds(1)[OF p] .
  have "key_bits empty_Key = []" by (simp add: key_bits_def empty_Key_def)
  moreover have "key_bits pre = [] \<longleftrightarrow> length_K pre = 0"
    using p0 by (simp add: key_bits_def)
  ultimately have H: "HasPrefix empty_Key pre = Some (length_K pre = 0)"
    by (simp add: HasPrefix_spec[OF e p])
  show ?thesis
  proof (cases "length_K pre = 0")
    case z: True
    then have "length_K k = bitsToSkip" using dom True by linarith
    then have "iteratedHasPrefix k pre bitsToSkip tokenBitSize = Some True"
      using z by (simp add: iteratedHasPrefix_def iteratedHasPrefix_loop.simps)
    then show ?thesis using S H z by auto
  next
    case False
    then have "length_K k - bitsToSkip < length_K pre" using True p0 by linarith
    then have "iteratedHasPrefix k pre bitsToSkip tokenBitSize = Some False"
      by (simp add: iteratedHasPrefix_def)
    then show ?thesis using S H False by auto
  qed
next
  case False
  then have lt: "bitsToSkip < length_K k" by simp
  from Skip_spec[OF k n0 lt] obtain r where
    r: "Skip k bitsToSkip = Some r" "length_K r = length_K k - bitsToSkip" "sized_key r"
      "\<forall>i < nat (length_K k - bitsToSkip).
          bit_at (value_K r) i = bit_at (value_K k) (nat bitsToSkip + i)"
    by blast
  have p0: "0 \<le> length_K pre" using sized_key_bounds(1)[OF p] .
  have r0: "0 \<le> length_K r" using sized_key_bounds(1)[OF r(3)] .
  have H: "HasPrefix r pre = Some (length_K pre \<le> length_K r
      \<and> (\<forall>i < nat (length_K pre). bit_at (value_K pre) i = bit_at (value_K r) i))"
    by (simp add: HasPrefix_spec[OF r(3) p] key_bits_prefix[OF p0 r0])
  show ?thesis
  proof (cases "length_K k - bitsToSkip < length_K pre")
    case True
    then have "iteratedHasPrefix k pre bitsToSkip tokenBitSize = Some False"
      by (simp add: iteratedHasPrefix_def)
    then show ?thesis using r(1,2) H True by auto
  next
    case False
    then have fit: "bitsToSkip + length_K pre \<le> length_K k" by simp
    have "iteratedHasPrefix k pre bitsToSkip tokenBitSize
        = Some (\<forall>j. nat 0 \<le> j \<and> j < nat (length_K pre)
                \<longrightarrow> bit_at (value_K k) (nat bitsToSkip + j) = bit_at (value_K pre) j)"
      using False p0 iteratedHasPrefix_loop_spec[OF k p tb dp dn n0 fit, of 0]
      by (simp add: iteratedHasPrefix_def)
    moreover have "(\<forall>j. nat 0 \<le> j \<and> j < nat (length_K pre)
                \<longrightarrow> bit_at (value_K k) (nat bitsToSkip + j) = bit_at (value_K pre) j)
        \<longleftrightarrow> (length_K pre \<le> length_K r
      \<and> (\<forall>i < nat (length_K pre). bit_at (value_K pre) i = bit_at (value_K r) i))"
    proof -
      have "bit_at (value_K r) i = bit_at (value_K k) (nat bitsToSkip + i)"
        if "i < nat (length_K pre)" for i
        using that r(4) False by simp
      then show ?thesis using False r(2) by auto
    qed
    ultimately show ?thesis using r(1) H by auto
  qed
qed

theorem iteratedHasPrefix_refines_witness:
  "sized_key (ToKey [0x12, 0x34, 0x56]) \<and> sized_key \<lparr>length_K = 12, value_K = [0x23, 0x40]\<rparr>
   \<and> (4 :: int) \<in> {1, 2, 4, 8} \<and> (4 :: int) dvd 12 \<and> (4 :: int) dvd 4 \<and> (0 :: int) \<le> 4
   \<and> \<not> length_K (ToKey [0x12, 0x34, 0x56]) < 4
   \<and> (\<exists>b r. iteratedHasPrefix (ToKey [0x12, 0x34, 0x56]) \<lparr>length_K = 12, value_K = [0x23, 0x40]\<rparr> 4 4 = Some b
          \<and> Skip (ToKey [0x12, 0x34, 0x56]) 4 = Some r
          \<and> HasPrefix r \<lparr>length_K = 12, value_K = [0x23, 0x40]\<rparr> = Some b)"
proof -
  have h1: "sized_key (ToKey [0x12, 0x34, 0x56])" by code_simp
  have h2: "sized_key \<lparr>length_K = 12, value_K = [0x23, 0x40]\<rparr>" by code_simp
  have h3: "(4 :: int) \<in> {1, 2, 4, 8}" by simp
  have h4: "(4 :: int) dvd length_K \<lparr>length_K = 12, value_K = [0x23, 0x40]\<rparr>" by simp
  have h5: "(4 :: int) dvd 4" "(0 :: int) \<le> 4" by simp_all
  have h6: "\<not> length_K (ToKey [0x12, 0x34, 0x56]) < 4" by (simp add: ToKey_def toKey_def len_def)
  show ?thesis
    using h1 h2 h3 h4 h5 h6 iteratedHasPrefix_refines[OF h1 h2 h3 h4 h5]
    by simp
qed

text \<open>
  C1.  The code does not do what the claim says.  For the proof made of one root node with
  children 0 and 1, iterated from the empty start key, the first four keys are the root,
  child 1, child 0 and child 0 again: child 0 is skipped after the root, the scan restarts
  at the first child after every child, and the iterator never reaches its end.
\<close>

theorem Next_repeats_child:
  "newProofIterator 16 [\<lparr>KeyPath = [], Children = [(0, 7), (1, 8)]\<rparr>] EmptyPath \<bind> emitted 16 4
     = Some [[], [1], [0], [0]]"
  by code_simp

text \<open>
  C2.  The code does not do what the claim says.  In the proof of the root (children 1 and
  2) and the node at path \<open>1\<close> (children 2 and 3), the smallest provable prefix not before
  the start key \<open>1 2\<close> is \<open>1 2\<close> itself; the iterator starts at \<open>2\<close>, and the key after that
  is \<open>1\<close>, which is before the start key.
\<close>

theorem newProofIterator_skips_subtree:
  "newProofIterator 16
       [\<lparr>KeyPath = [], Children = [(1, 7), (2, 8)]\<rparr>,
        \<lparr>KeyPath = [1], Children = [(2, 9), (3, 10)]\<rparr>] [1, 2] \<bind> emitted 16 2
     = Some [[2], [1]]
   \<and> [1, 2] \<in> set (provable_prefixes
       [\<lparr>KeyPath = [], Children = [(1, 7), (2, 8)]\<rparr>,
        \<lparr>KeyPath = [1], Children = [(2, 9), (3, 10)]\<rparr>])
   \<and> Compare [1, 2] [1, 2] \<le> 0 \<and> Compare [1, 2] [2] < 0 \<and> Compare [1] [1, 2] < 0"
  by code_simp

text \<open>
  C9.  Every key produced by \<open>ToKey\<close>, and by \<open>Append\<close>, \<open>AppendExtend\<close>, \<open>Skip\<close> and \<open>Take\<close> from
  keys that satisfy it, satisfies the representation invariant: the buffer has exactly
  \<open>ceil(length / 8)\<close> bytes and every bit of the buffer at a position from \<open>length\<close> on is
  zero.  For two keys satisfying it, equality of the raw structs is equality of length and
  bit sequence, and \<open>Less\<close> and \<open>Greater\<close>, which compare the raw byte strings and then the
  lengths, are the lexicographic order of the bit sequences.
\<close>

theorem representation_invariant:
  "valid_key (ToKey bs)
   \<and> (valid_key k \<and> 1 \<le> length_T t \<longrightarrow> (\<exists>r. Append k t = Some r \<and> valid_key r))
   \<and> (valid_key k \<and> valid_key e \<and> 1 \<le> length_T t
        \<longrightarrow> (\<exists>r. AppendExtend k t e = Some r \<and> valid_key r))
   \<and> (valid_key k \<and> 0 \<le> n \<longrightarrow> (\<exists>r. Skip k n = Some r \<and> valid_key r))
   \<and> (valid_key k \<and> 0 \<le> n \<longrightarrow> (\<exists>r. Take k n = Some r \<and> valid_key r))
   \<and> (valid_key a \<and> valid_key b \<longrightarrow>
        (a = b \<longleftrightarrow> Length a = Length b \<and> key_bits a = key_bits b)
        \<and> (Less a b \<longleftrightarrow> ord_class.lexordp (key_bits a) (key_bits b))
        \<and> (Greater a b \<longleftrightarrow> ord_class.lexordp (key_bits b) (key_bits a)))"
proof (intro conjI impI)
  show "valid_key (ToKey bs)" by (rule valid_ToKey)
  show "\<exists>r. Append k t = Some r \<and> valid_key r" if "valid_key k \<and> 1 \<le> length_T t"
    using that by (intro valid_Append) simp_all
  show "\<exists>r. AppendExtend k t e = Some r \<and> valid_key r"
    if "valid_key k \<and> valid_key e \<and> 1 \<le> length_T t"
    using that by (intro valid_AppendExtend) simp_all
  show "\<exists>r. Skip k n = Some r \<and> valid_key r" if "valid_key k \<and> 0 \<le> n"
    using that by (intro valid_Skip) simp_all
  show "\<exists>r. Take k n = Some r \<and> valid_key r" if "valid_key k \<and> 0 \<le> n"
    using that by (intro valid_Take) simp_all
  show "a = b \<longleftrightarrow> Length a = Length b \<and> key_bits a = key_bits b"
    if "valid_key a \<and> valid_key b"
    using that valid_key_eq_iff[of a b] by (simp add: Length_def)
  show "Less a b \<longleftrightarrow> ord_class.lexordp (key_bits a) (key_bits b)"
    if "valid_key a \<and> valid_key b"
    using that by (intro Less_iff_bits) simp_all
  show "Greater a b \<longleftrightarrow> ord_class.lexordp (key_bits b) (key_bits a)"
    if "valid_key a \<and> valid_key b"
  proof -
    have "Greater a b \<longleftrightarrow> Less b a" by (auto simp: Greater_def Less_def)
    then show ?thesis using that Less_iff_bits[of b a] by simp
  qed
qed

theorem representation_invariant_witness:
  "valid_key \<lparr>length_K = 4, value_K = [0xA0]\<rparr> \<and> valid_key \<lparr>length_K = 12, value_K = [0xF1, 0x70]\<rparr>
   \<and> valid_key (ToKey [0xA0])
   \<and> (\<exists>r. Append \<lparr>length_K = 4, value_K = [0xA0]\<rparr> \<lparr>length_T = 4, value_T = 11\<rparr> = Some r
          \<and> valid_key r)
   \<and> (\<exists>r. AppendExtend \<lparr>length_K = 4, value_K = [0xA0]\<rparr> \<lparr>length_T = 4, value_T = 11\<rparr>
              \<lparr>length_K = 12, value_K = [0xF1, 0x70]\<rparr> = Some r \<and> valid_key r)
   \<and> (\<exists>r. Skip \<lparr>length_K = 12, value_K = [0xF1, 0x70]\<rparr> 4 = Some r \<and> valid_key r)
   \<and> (\<exists>r. Take \<lparr>length_K = 12, value_K = [0xF1, 0x70]\<rparr> 4 = Some r \<and> valid_key r)
   \<and> (Less \<lparr>length_K = 4, value_K = [0xA0]\<rparr> (ToKey [0xA0])
        \<longleftrightarrow> ord_class.lexordp (key_bits \<lparr>length_K = 4, value_K = [0xA0]\<rparr>) (key_bits (ToKey [0xA0])))"
proof -
  have h1: "valid_key \<lparr>length_K = 4, value_K = [0xA0]\<rparr>" by code_simp
  have h2: "valid_key \<lparr>length_K = 12, value_K = [0xF1, 0x70]\<rparr>" by code_simp
  have h3: "(1::int) \<le> length_T \<lparr>length_T = 4, value_T = 11\<rparr>" "(0::int) \<le> 4" by simp_all
  note r1 = representation_invariant[of "[0xA0]" "\<lparr>length_K = 4, value_K = [0xA0]\<rparr>"
      "\<lparr>length_T = 4, value_T = 11\<rparr>" "\<lparr>length_K = 12, value_K = [0xF1, 0x70]\<rparr>" 4
      "\<lparr>length_K = 4, value_K = [0xA0]\<rparr>" "ToKey [0xA0]"]
  note r2 = representation_invariant[of "[0xA0]" "\<lparr>length_K = 12, value_K = [0xF1, 0x70]\<rparr>"
      "\<lparr>length_T = 4, value_T = 11\<rparr>" "\<lparr>length_K = 12, value_K = [0xF1, 0x70]\<rparr>" 4
      "\<lparr>length_K = 4, value_K = [0xA0]\<rparr>" "ToKey [0xA0]"]
  show ?thesis using h1 h2 h3 r1 r2 by blast
qed

text \<open>
  C8 (against the codec modelled from the spec).  For every node that has an encoding, of
  length \<open>N\<close>, the encoding parses back to the node, and \<open>parse\<close> of its first \<open>i\<close> bytes, for
  every \<open>i\<close> from 1 to \<open>N - 1\<close>, fails with EncodingTruncated: no strict prefix yields a node.
\<close>

theorem parse_truncated:
  assumes "uint_codec enc dec B" "encodable B idLen n"
  shows "parse dec idLen (key_N n) (serialize enc n) = Inr n
       \<and> (\<forall>i. 1 \<le> i \<and> i < length (serialize enc n)
              \<longrightarrow> parse dec idLen key (take i (serialize enc n)) = Inl EncodingTruncated)"
proof -
  have f: "framed (serialize enc n) (parse_body dec idLen) (value_N n, children_N n)"
    by (rule framed_body[OF assms])
  then have "parse_body dec idLen (serialize enc n @ []) = Inr ((value_N n, children_N n), [])"
    unfolding framed_def by blast
  then have 1: "parse dec idLen (key_N n) (serialize enc n) = Inr n"
    by (simp add: parse_def)
  have 2: "parse dec idLen key (take i (serialize enc n)) = Inl EncodingTruncated"
    if "i < length (serialize enc n)" for i
  proof -
    have "strict_prefix (take i (serialize enc n)) (serialize enc n)"
      using that by (metis take_is_prefix strict_prefix_def length_take min.absorb4 nat_neq_iff)
    then have "parse_body dec idLen (take i (serialize enc n)) = Inl EncodingTruncated"
      using f unfolding framed_def by blast
    then show ?thesis by (simp add: parse_def)
  qed
  show ?thesis using 1 2 by simp
qed

theorem parse_truncated_witness:
  "uint_codec enc_u8 dec_u8 256
   \<and> encodable 256 2
        \<lparr>key_N = empty_Key, value_N = None,
           children_N = [\<lparr>token_C = 14, suffix_C = \<lparr>length_K = 4, value_K = [0xD0]\<rparr>, digest_C = [7, 7]\<rparr>,
                         \<lparr>token_C = 15, suffix_C = \<lparr>length_K = 4, value_K = [0xF0]\<rparr>, digest_C = [9, 9]\<rparr>]\<rparr>
   \<and> (1 :: nat) \<le> 6
   \<and> 6 < length (serialize enc_u8
        \<lparr>key_N = empty_Key, value_N = None,
           children_N = [\<lparr>token_C = 14, suffix_C = \<lparr>length_K = 4, value_K = [0xD0]\<rparr>, digest_C = [7, 7]\<rparr>,
                         \<lparr>token_C = 15, suffix_C = \<lparr>length_K = 4, value_K = [0xF0]\<rparr>, digest_C = [9, 9]\<rparr>]\<rparr>)
   \<and> parse dec_u8 2 empty_Key (take 6 (serialize enc_u8
        \<lparr>key_N = empty_Key, value_N = None,
           children_N = [\<lparr>token_C = 14, suffix_C = \<lparr>length_K = 4, value_K = [0xD0]\<rparr>, digest_C = [7, 7]\<rparr>,
                         \<lparr>token_C = 15, suffix_C = \<lparr>length_K = 4, value_K = [0xF0]\<rparr>, digest_C = [9, 9]\<rparr>]\<rparr>))
       = Inl EncodingTruncated"
proof -
  define n where "n = \<lparr>key_N = empty_Key, value_N = None,
           children_N = [\<lparr>token_C = 14, suffix_C = \<lparr>length_K = 4, value_K = [0xD0]\<rparr>, digest_C = [7, 7]\<rparr>,
                         \<lparr>token_C = 15, suffix_C = \<lparr>length_K = 4, value_K = [0xF0]\<rparr>, digest_C = [9, 9]\<rparr>]\<rparr>"
  have h1: "uint_codec enc_u8 dec_u8 256" by (rule uint_codec_u8)
  have h2: "encodable 256 2 n"
    by (simp add: n_def encodable_def sized_key_def len_def bytesNeeded_def)
  have h3: "6 < length (serialize enc_u8 n)"
    by (simp add: n_def serialize_def serialize_value_def serialize_child_def enc_u8_def)
  have "parse dec_u8 2 empty_Key (take 6 (serialize enc_u8 n)) = Inl EncodingTruncated"
    using parse_truncated[OF h1 h2, of empty_Key] h3 by simp
  then show ?thesis using h1 h2 h3 unfolding n_def by simp
qed

end
